theory Spec2Isabelle
  imports Main "HOL-Library.Word"
begin

unbundle bit_operations_syntax

section \<open>Go byte slices over an explicit store\<close>

text \<open>
  The codec of \<^verbatim>\<open>tsdb/series/series_file.go\<close> works on Go byte slices: it allocates
  arrays, writes through sub-slices of them and returns further sub-slices. The store
  is the list of all arrays allocated so far; an array is named by its index in that
  list. A slice is either \<^verbatim>\<open>nil\<close> or a window on one array: the array, the offset of the
  window's first byte, its length and its capacity. Go's \<^verbatim>\<open>int\<close> is 64 bits wide and
  every \<^verbatim>\<open>int\<close> of this file is a length, an offset or a sum of lengths of data held in
  memory, so it is modelled by \<open>nat\<close>; the conversions to \<^verbatim>\<open>uint16\<close>, which do
  wrap around, are conversions to \<open>16 word\<close>.
\<close>

type_synonym byte = "8 word"
type_synonym uint16 = "16 word"
type_synonym heap = "byte list list"

datatype slice = NilSlice | Slice nat nat nat nat

text \<open>A run-time panic of Go: an index or a slice expression out of range.\<close>

datatype panic = IndexOutOfRange | SliceBoundsOutOfRange

fun len :: "slice \<Rightarrow> nat" where
  "len NilSlice = 0"
| "len (Slice a off n c) = n"

fun cap :: "slice \<Rightarrow> nat" where
  "cap NilSlice = 0"
| "cap (Slice a off n c) = c"

text \<open>The bytes a slice shows: \<open>len\<close> bytes of its array, from its offset.\<close>

fun bytes_of :: "heap \<Rightarrow> slice \<Rightarrow> byte list" where
  "bytes_of h NilSlice = []"
| "bytes_of h (Slice a off n c) = take n (drop off (h ! a))"

text \<open>
  The slice expression \<^verbatim>\<open>s[lo:hi]\<close>: Go requires \<^verbatim>\<open>lo <= hi <= cap(s)\<close> and panics
  otherwise; the result shares the array and keeps the capacity that is left after
  \<^verbatim>\<open>lo\<close>. \<^verbatim>\<open>s[lo:]\<close> is \<^verbatim>\<open>s[lo:len(s)]\<close> and \<^verbatim>\<open>s[:hi]\<close> is \<^verbatim>\<open>s[0:hi]\<close>.
\<close>

fun reslice :: "slice \<Rightarrow> nat \<Rightarrow> nat \<Rightarrow> panic + slice" where
  "reslice NilSlice lo hi =
     (if lo \<le> hi \<and> hi \<le> 0 then Inr NilSlice else Inl SliceBoundsOutOfRange)"
| "reslice (Slice a off n c) lo hi =
     (if lo \<le> hi \<and> hi \<le> c then Inr (Slice a (off + lo) (hi - lo) (c - lo))
      else Inl SliceBoundsOutOfRange)"

text \<open>
  \<^verbatim>\<open>make([]byte, n, c)\<close>: a new zeroed array of \<^verbatim>\<open>c\<close> bytes at the end of the store and
  a slice of length \<^verbatim>\<open>n\<close> on it.
\<close>

definition make_bytes :: "heap \<Rightarrow> nat \<Rightarrow> nat \<Rightarrow> slice \<times> heap" where
  "make_bytes h n c = (Slice (length h) 0 n c, h @ [replicate c 0])"

text \<open>Overwriting the bytes of a slice's array from the slice's first byte on.\<close>

fun write_bytes :: "heap \<Rightarrow> slice \<Rightarrow> byte list \<Rightarrow> heap" where
  "write_bytes h NilSlice bs = h"
| "write_bytes h (Slice a off n c) bs =
     h[a := take off (h ! a) @ bs @ drop (off + length bs) (h ! a)]"

text \<open>
  The builtin \<^verbatim>\<open>copy(dst, src)\<close> copies \<^verbatim>\<open>min(len(dst), len(src))\<close> bytes, reading the
  source before it writes (the two may overlap).
\<close>

definition copy_bytes :: "heap \<Rightarrow> slice \<Rightarrow> slice \<Rightarrow> heap" where
  "copy_bytes h dst src = write_bytes h dst (take (min (len dst) (len src)) (bytes_of h src))"

text \<open>
  \<^verbatim>\<open>binary.BigEndian.PutUint16(b, v)\<close> and \<^verbatim>\<open>binary.BigEndian.Uint16(b)\<close> of Go's
  standard library: both first touch \<^verbatim>\<open>b[1]\<close>, which panics on a slice shorter than two
  bytes; then \<^verbatim>\<open>b[0] = byte(v >> 8); b[1] = byte(v)\<close>, respectively
  \<^verbatim>\<open>uint16(b[1]) | uint16(b[0])<<8\<close>.
\<close>

fun BigEndian_PutUint16 :: "heap \<Rightarrow> slice \<Rightarrow> uint16 \<Rightarrow> panic + heap" where
  "BigEndian_PutUint16 h NilSlice v = Inl IndexOutOfRange"
| "BigEndian_PutUint16 h (Slice a off n c) v =
     (if n < 2 then Inl IndexOutOfRange
      else Inr (h[a := (h ! a)[off := ucast (drop_bit 8 v), off + 1 := ucast v]]))"

fun BigEndian_Uint16 :: "heap \<Rightarrow> slice \<Rightarrow> panic + uint16" where
  "BigEndian_Uint16 h NilSlice = Inl IndexOutOfRange"
| "BigEndian_Uint16 h (Slice a off n c) =
     (if n < 2 then Inl IndexOutOfRange
      else Inr (ucast (h ! a ! (off + 1)) OR push_bit 8 (ucast (h ! a ! off))))"

section \<open>The series key codec\<close>

text \<open>
  Modelled from the spec: \<^verbatim>\<open>models.Tag\<close> and \<^verbatim>\<open>models.Tags\<close> are declared in the package
  \<^verbatim>\<open>models\<close>, which is not part of the sources at hand. A tag is an ordered pair of a
  key and a value, both byte strings (in Go: two fields \<^verbatim>\<open>Key, Value []byte\<close>); a tag
  set is an ordered sequence of tags.
\<close>

record Tag =
  Key :: slice
  Value :: slice

definition PutUint16 :: "heap \<Rightarrow> slice \<Rightarrow> nat \<Rightarrow> uint16 \<Rightarrow> panic + heap" where
  "PutUint16 h b p v =
     (case reslice b p (len b) of Inl e \<Rightarrow> Inl e | Inr s \<Rightarrow> BigEndian_PutUint16 h s v)"

definition GetUint16 :: "heap \<Rightarrow> slice \<Rightarrow> nat \<Rightarrow> panic + nat" where
  "GetUint16 h b p =
     (case reslice b p (len b) of Inl e \<Rightarrow> Inl e
      | Inr s \<Rightarrow> (case BigEndian_Uint16 h s of Inl e \<Rightarrow> Inl e | Inr v \<Rightarrow> Inr (unat v)))"

definition SeriesKeyOffsetsSize :: "nat \<Rightarrow> nat" where
  "SeriesKeyOffsetsSize tagsN = 2 + 2 * 2 * tagsN"

fun SeriesKeyBytesSize_loop :: "nat \<Rightarrow> Tag list \<Rightarrow> nat" where
  "SeriesKeyBytesSize_loop n [] = n"
| "SeriesKeyBytesSize_loop n (t # ts) =
     SeriesKeyBytesSize_loop (n + len (Key t) + len (Value t)) ts"

definition SeriesKeyBytesSize :: "slice \<Rightarrow> Tag list \<Rightarrow> nat" where
  "SeriesKeyBytesSize name tags = SeriesKeyBytesSize_loop (len name) tags"

definition SeriesKeySize :: "slice \<Rightarrow> Tag list \<Rightarrow> nat" where
  "SeriesKeySize name tags =
     SeriesKeyOffsetsSize (length tags) + SeriesKeyBytesSize name tags + 4"

text \<open>
  \<^verbatim>\<open>AppendSeriesKey\<close>, lines 16 to 28: the destination. The result is the slice that
  will be returned (\<^verbatim>\<open>dst\<close>), the window of \<^verbatim>\<open>size\<close> bytes the key is written to
  (\<^verbatim>\<open>out\<close>) and the store.
\<close>

definition AppendSeriesKey_dst ::
  "heap \<Rightarrow> slice \<Rightarrow> nat \<Rightarrow> panic + (slice \<times> slice \<times> heap)" where
  "AppendSeriesKey_dst h dst sz =
     (if dst = NilSlice then
        (case make_bytes h sz sz of (d, h1) \<Rightarrow> Inr (d, d, h1))
      else
        (case (if cap dst - len dst < sz then
                 (case make_bytes h (len dst) (len dst + sz) of
                    (tmp, h1) \<Rightarrow> (tmp, copy_bytes h1 tmp dst))
               else (dst, h)) of
           (d1, h1) \<Rightarrow>
             (case reslice d1 0 (len d1 + sz) of Inl e \<Rightarrow> Inl e
              | Inr d2 \<Rightarrow>
                 (case reslice d2 (len d2 - sz) (len d2) of Inl e \<Rightarrow> Inl e
                  | Inr out \<Rightarrow> Inr (d2, out, h1)))))"

text \<open>
  Lines 44 to 56: the loop over the tags, with the position \<^verbatim>\<open>opos\<close> in the table of
  lengths and the position \<^verbatim>\<open>bpos\<close> in the payload.
\<close>

fun AppendSeriesKey_tags :: "heap \<Rightarrow> slice \<Rightarrow> Tag list \<Rightarrow> nat \<Rightarrow> nat \<Rightarrow> panic + heap" where
  "AppendSeriesKey_tags h out [] opos bpos = Inr h"
| "AppendSeriesKey_tags h out (tag # tags) opos bpos =
     (case PutUint16 h out opos (of_nat (len (Key tag))) of Inl e \<Rightarrow> Inl e
      | Inr h1 \<Rightarrow>
     (case reslice out bpos (bpos + len (Key tag)) of Inl e \<Rightarrow> Inl e
      | Inr s1 \<Rightarrow>
     (case PutUint16 (copy_bytes h1 s1 (Key tag)) out (opos + 2) (of_nat (len (Value tag))) of
        Inl e \<Rightarrow> Inl e
      | Inr h2 \<Rightarrow>
     (case reslice out (bpos + len (Key tag)) (bpos + len (Key tag) + len (Value tag)) of
        Inl e \<Rightarrow> Inl e
      | Inr s2 \<Rightarrow>
          AppendSeriesKey_tags (copy_bytes h2 s2 (Value tag)) out tags (opos + 4)
            (bpos + len (Key tag) + len (Value tag))))))"

definition AppendSeriesKey :: "heap \<Rightarrow> slice \<Rightarrow> slice \<Rightarrow> Tag list \<Rightarrow> panic + (slice \<times> heap)" where
  "AppendSeriesKey h dst name tags =
     (let ofssz = SeriesKeyOffsetsSize (length tags);
          bytsz = SeriesKeyBytesSize name tags;
          sz = ofssz + bytsz + 4
      in case AppendSeriesKey_dst h dst sz of Inl e \<Rightarrow> Inl e
         | Inr (dst', out, h0) \<Rightarrow>
        (case PutUint16 h0 out 0 (of_nat ofssz) of Inl e \<Rightarrow> Inl e
         | Inr h1 \<Rightarrow>
        (case PutUint16 h1 out 2 (of_nat (len name)) of Inl e \<Rightarrow> Inl e
         | Inr h2 \<Rightarrow>
        (case PutUint16 h2 out (ofssz + 2) (of_nat bytsz) of Inl e \<Rightarrow> Inl e
         | Inr h3 \<Rightarrow>
        (case reslice out (ofssz + 2 + 2) (ofssz + 2 + 2 + len name) of Inl e \<Rightarrow> Inl e
         | Inr s \<Rightarrow>
        (case AppendSeriesKey_tags (copy_bytes h3 s name) out tags 4
                (ofssz + 2 + 2 + len name) of Inl e \<Rightarrow> Inl e
         | Inr h4 \<Rightarrow> Inr (dst', h4)))))))"

definition GetSeriesKeyTagN :: "heap \<Rightarrow> slice \<Rightarrow> panic + nat" where
  "GetSeriesKeyTagN h data =
     (case GetUint16 h data 0 of Inl e \<Rightarrow> Inl e | Inr ofsN \<Rightarrow> Inr ((ofsN - 2) div 4))"

text \<open>
  \<^verbatim>\<open>ParseSeriesKeyTags\<close>, lines 99 to 111: the loop that fills the tag container. Both
  fields of \<^verbatim>\<open>tags[i]\<close> are assigned before anything else reads the container, so the
  two assignments are one update.
\<close>

function ParseSeriesKeyTags_loop ::
  "heap \<Rightarrow> slice \<Rightarrow> slice \<Rightarrow> Tag list \<Rightarrow> nat \<Rightarrow> nat \<Rightarrow> nat \<Rightarrow> panic + Tag list" where
  "ParseSeriesKeyTags_loop h data byts tags i opos bpos =
     (if i < length tags then
        (case GetUint16 h data opos of Inl e \<Rightarrow> Inl e
         | Inr klen \<Rightarrow>
        (case reslice byts bpos (bpos + klen) of Inl e \<Rightarrow> Inl e
         | Inr k \<Rightarrow>
        (case GetUint16 h data (opos + 2) of Inl e \<Rightarrow> Inl e
         | Inr vlen \<Rightarrow>
        (case reslice byts (bpos + klen) (bpos + klen + vlen) of Inl e \<Rightarrow> Inl e
         | Inr v \<Rightarrow>
            ParseSeriesKeyTags_loop h data byts (tags[i := \<lparr>Key = k, Value = v\<rparr>]) (Suc i)
              (opos + 4) (bpos + klen + vlen)))))
      else Inr tags)"
  by pat_completeness auto
termination
  by (relation "measure (\<lambda>(h, data, byts, tags, i, opos, bpos). length tags - i)") auto

declare ParseSeriesKeyTags_loop.simps [simp del]

text \<open>
  The tag container \<^verbatim>\<open>tags\<close> handed to \<^verbatim>\<open>ParseSeriesKeyTags\<close> is given by the elements
  of its array up to its capacity (\<^verbatim>\<open>nil\<close> is the empty list): the function only asks
  for \<^verbatim>\<open>cap(tags)\<close> and takes \<^verbatim>\<open>tags[:tagN]\<close>. \<^verbatim>\<open>make(models.Tags, tagN)\<close> is \<^verbatim>\<open>tagN\<close> tags
  with both fields \<^verbatim>\<open>nil\<close>. In \<^verbatim>\<open>(ofsN - 2) / 4\<close> Go's division truncates towards zero, so
  the quotient is 0 for \<^verbatim>\<open>ofsN < 2\<close>, as it is with the subtraction on \<open>nat\<close>.
\<close>

definition ParseSeriesKeyTags ::
  "heap \<Rightarrow> slice \<Rightarrow> Tag list \<Rightarrow> panic + (slice \<times> Tag list)" where
  "ParseSeriesKeyTags h data tags =
     (case GetUint16 h data 0 of Inl e \<Rightarrow> Inl e
      | Inr ofsN \<Rightarrow>
     (case reslice data (ofsN + 2 + 2) (len data) of Inl e \<Rightarrow> Inl e
      | Inr byts \<Rightarrow>
     (case GetUint16 h data 2 of Inl e \<Rightarrow> Inl e
      | Inr vlen \<Rightarrow>
     (case reslice byts 0 (0 + vlen) of Inl e \<Rightarrow> Inl e
      | Inr name \<Rightarrow>
        (let tagN = (ofsN - 2) div 4;
             tags1 = (if length tags < tagN
                      then replicate tagN \<lparr>Key = NilSlice, Value = NilSlice\<rparr>
                      else take tagN tags)
         in case ParseSeriesKeyTags_loop h data byts tags1 0 4 vlen of Inl e \<Rightarrow> Inl e
            | Inr tags2 \<Rightarrow> Inr (name, tags2))))))"

definition ParseSeriesKey :: "heap \<Rightarrow> slice \<Rightarrow> panic + (slice \<times> Tag list)" where
  "ParseSeriesKey h data = ParseSeriesKeyTags h data []"

text \<open>
  \<^verbatim>\<open>bytes.Compare\<close> of Go's standard library: the lexicographic comparison of two byte
  strings, with result -1, 0 or 1; bytes compare as unsigned numbers.
\<close>

fun bytes_Compare :: "byte list \<Rightarrow> byte list \<Rightarrow> int" where
  "bytes_Compare [] [] = 0"
| "bytes_Compare [] (y # ys) = - 1"
| "bytes_Compare (x # xs) [] = 1"
| "bytes_Compare (x # xs) (y # ys) =
     (if x < y then - 1 else if y < x then 1 else bytes_Compare xs ys)"

definition CompareSeriesKeys :: "heap \<Rightarrow> slice \<Rightarrow> slice \<Rightarrow> panic + int" where
  "CompareSeriesKeys h a b =
     (if len a = 0 \<and> len b = 0 then Inr 0
      else if len a = 0 then Inr (- 1)
      else if len b = 0 then Inr 1
      else
        (case GetUint16 h a 0 of Inl e \<Rightarrow> Inl e
         | Inr ofsA \<Rightarrow>
        (case GetUint16 h b 0 of Inl e \<Rightarrow> Inl e
         | Inr ofsB \<Rightarrow>
        (case GetUint16 h a (ofsA + 2) of Inl e \<Rightarrow> Inl e
         | Inr keyLenA \<Rightarrow>
        (case GetUint16 h b (ofsB + 2) of Inl e \<Rightarrow> Inl e
         | Inr keyLenB \<Rightarrow>
        (case reslice a (ofsA + 2 + 2) (ofsA + 2 + 2 + keyLenA) of Inl e \<Rightarrow> Inl e
         | Inr pa \<Rightarrow>
        (case reslice b (ofsB + 2 + 2) (ofsB + 2 + 2 + keyLenB) of Inl e \<Rightarrow> Inl e
         | Inr pb \<Rightarrow> Inr (bytes_Compare (bytes_of h pa) (bytes_of h pb)))))))))"

text \<open>
  \<^verbatim>\<open>SeriesKeysSize\<close> and \<^verbatim>\<open>GenerateSeriesKeys\<close> run \<^verbatim>\<open>for i := range names\<close> and index both
  lists with \<^verbatim>\<open>i\<close>. The loops walk the two lists in step: the heads are \<^verbatim>\<open>names[i]\<close> and
  \<^verbatim>\<open>tagsSlice[i]\<close>, and a \<^verbatim>\<open>tagsSlice\<close> that ends before \<^verbatim>\<open>names\<close> is the panic of
  \<^verbatim>\<open>tagsSlice[i]\<close>.
\<close>

fun SeriesKeysSize_loop :: "nat \<Rightarrow> slice list \<Rightarrow> Tag list list \<Rightarrow> panic + nat" where
  "SeriesKeysSize_loop n [] tagsSlice = Inr n"
| "SeriesKeysSize_loop n (name # names) [] = Inl IndexOutOfRange"
| "SeriesKeysSize_loop n (name # names) (tags # tagsSlice) =
     SeriesKeysSize_loop (n + SeriesKeySize name tags) names tagsSlice"

definition SeriesKeysSize :: "slice list \<Rightarrow> Tag list list \<Rightarrow> panic + nat" where
  "SeriesKeysSize names tagsSlice = SeriesKeysSize_loop 0 names tagsSlice"

fun GenerateSeriesKeys_loop ::
  "heap \<Rightarrow> slice \<Rightarrow> slice list \<Rightarrow> nat \<Rightarrow> slice list \<Rightarrow> Tag list list \<Rightarrow>
   panic + (slice list \<times> heap)" where
  "GenerateSeriesKeys_loop h buf keys i [] tagsSlice = Inr (keys, h)"
| "GenerateSeriesKeys_loop h buf keys i (name # names) [] = Inl IndexOutOfRange"
| "GenerateSeriesKeys_loop h buf keys i (name # names) (tags # tagsSlice) =
     (case AppendSeriesKey h buf name tags of Inl e \<Rightarrow> Inl e
      | Inr (buf', h') \<Rightarrow>
     (case reslice buf' (len buf) (len buf') of Inl e \<Rightarrow> Inl e
      | Inr k \<Rightarrow>
        (if i < length keys
         then GenerateSeriesKeys_loop h' buf' (keys[i := k]) (Suc i) names tagsSlice
         else Inl IndexOutOfRange)))"

definition GenerateSeriesKeys ::
  "heap \<Rightarrow> slice list \<Rightarrow> Tag list list \<Rightarrow> panic + (slice list \<times> heap)" where
  "GenerateSeriesKeys h names tagsSlice =
     (case SeriesKeysSize names tagsSlice of Inl e \<Rightarrow> Inl e
      | Inr n \<Rightarrow>
        (case make_bytes h 0 n of
           (buf, h1) \<Rightarrow>
             GenerateSeriesKeys_loop h1 buf (replicate (length names) NilSlice) 0
               names tagsSlice))"

section \<open>Notions used to state the properties\<close>

text \<open>
  The two bytes of a 16-bit value, the more significant one first: what
  \<^verbatim>\<open>PutUint16\<close> leaves in the buffer.
\<close>

definition be16 :: "uint16 \<Rightarrow> byte list" where
  "be16 v = [ucast (drop_bit 8 v), ucast v]"

text \<open>
  The 16-bit big-endian value held at position \<open>p\<close> of a byte string: what
  \<^verbatim>\<open>GetUint16\<close> returns when the two bytes are there.
\<close>

definition rd16 :: "byte list \<Rightarrow> nat \<Rightarrow> nat" where
  "rd16 bs p = unat ((ucast (bs ! (p + 1)) :: uint16) OR push_bit 8 (ucast (bs ! p)))"

text \<open>
  A slice is valid in a store when its array has been allocated and its window, up to
  its capacity, lies inside the array. Every slice a Go program can hold is valid.
\<close>

fun valid :: "heap \<Rightarrow> slice \<Rightarrow> bool" where
  "valid h NilSlice = True"
| "valid h (Slice a off n c) = (a < length h \<and> n \<le> c \<and> off + c \<le> length (h ! a))"

text \<open>
  \<open>apart s a lo hi\<close>: the slice \<open>s\<close> shows no byte of the array \<open>a\<close> at a
  position from \<open>lo\<close> up to, and not including, \<open>hi\<close>.
\<close>

fun apart :: "slice \<Rightarrow> nat \<Rightarrow> nat \<Rightarrow> nat \<Rightarrow> bool" where
  "apart NilSlice a lo hi = True"
| "apart (Slice a' off n c) a lo hi = (a' \<noteq> a \<or> off + n \<le> lo \<or> hi \<le> off)"

text \<open>
  The layout of a series key, section 3 of the specification: the table of the tags'
  lengths (for each tag, in order, the length of its key and the length of its value,
  16 bits each), and the payload of the tags (for each tag, in order, the bytes of its
  key and the bytes of its value). The lengths are converted to 16 bits as the encoder
  converts them.
\<close>

definition layout_table :: "Tag list \<Rightarrow> byte list" where
  "layout_table tags =
     concat (map (\<lambda>t. be16 (of_nat (len (Key t))) @ be16 (of_nat (len (Value t)))) tags)"

definition layout_payload :: "heap \<Rightarrow> Tag list \<Rightarrow> byte list" where
  "layout_payload h tags = concat (map (\<lambda>t. bytes_of h (Key t) @ bytes_of h (Value t)) tags)"

text \<open>
  The number of payload bytes of a tag set.
\<close>

definition tags_len :: "Tag list \<Rightarrow> nat" where
  "tags_len tags = (\<Sum>t\<leftarrow>tags. len (Key t) + len (Value t))"

text \<open>
  Validity and separation of slices, for a tag, and below for a name with its tag set.
\<close>

definition valid_tag :: "heap \<Rightarrow> Tag \<Rightarrow> bool" where
  "valid_tag h t = (valid h (Key t) \<and> valid h (Value t))"

definition apart_tag :: "Tag \<Rightarrow> nat \<Rightarrow> nat \<Rightarrow> nat \<Rightarrow> bool" where
  "apart_tag t a lo hi = (apart (Key t) a lo hi \<and> apart (Value t) a lo hi)"

text \<open>
  The whole key: the size of the offsets section, the length of the name, the table,
  the size of the payload, the name and the tags' payload.
\<close>

definition key_layout :: "heap \<Rightarrow> slice \<Rightarrow> Tag list \<Rightarrow> byte list" where
  "key_layout h name tags =
     be16 (of_nat (SeriesKeyOffsetsSize (length tags))) @ be16 (of_nat (len name)) @
     layout_table tags @
     be16 (of_nat (SeriesKeyBytesSize name tags)) @ bytes_of h name @ layout_payload h tags"

definition valid_input :: "heap \<Rightarrow> slice \<Rightarrow> Tag list \<Rightarrow> bool" where
  "valid_input h name tags = (valid h name \<and> list_all (valid_tag h) tags)"

definition apart_input :: "slice \<Rightarrow> Tag list \<Rightarrow> nat \<Rightarrow> nat \<Rightarrow> nat \<Rightarrow> bool" where
  "apart_input name tags a lo hi = (apart name a lo hi \<and> list_all (\<lambda>t. apart_tag t a lo hi) tags)"

text \<open>
  The tags the decoder returns for a key held in array \<open>a\<close> whose payload starts at
  \<open>base\<close>: windows on the payload, one after the other, from position \<open>bpos\<close>
  of the payload on.
\<close>

fun tag_views :: "nat \<Rightarrow> nat \<Rightarrow> nat \<Rightarrow> nat \<Rightarrow> Tag list \<Rightarrow> Tag list" where
  "tag_views a base cp bpos [] = []"
| "tag_views a base cp bpos (t # ts) =
     \<lparr>Key = Slice a (base + bpos) (len (Key t)) (cp - bpos),
      Value = Slice a (base + (bpos + len (Key t))) (len (Value t)) (cp - (bpos + len (Key t)))\<rparr> #
     tag_views a base cp (bpos + len (Key t) + len (Value t)) ts"

text \<open>
  A tag whose key and value both fit a 16-bit length.
\<close>

definition small_tag :: "Tag \<Rightarrow> bool" where
  "small_tag t = (len (Key t) \<le> 65535 \<and> len (Value t) \<le> 65535)"

text \<open>
  The contents of a tag: the bytes of its key and the bytes of its value.
\<close>

definition tag_bytes :: "heap \<Rightarrow> Tag \<Rightarrow> byte list \<times> byte list" where
  "tag_bytes h t = (bytes_of h (Key t), bytes_of h (Value t))"

text \<open>
  \<^verbatim>\<open>ParseSeriesKey(AppendSeriesKey(nil, name, tags))\<close>, with the contents of the slices
  it returns.
\<close>

definition ParseSeriesKey_of_AppendSeriesKey ::
  "heap \<Rightarrow> slice \<Rightarrow> Tag list \<Rightarrow> panic + (byte list \<times> (byte list \<times> byte list) list)" where
  "ParseSeriesKey_of_AppendSeriesKey h name tags =
     (case AppendSeriesKey h NilSlice name tags of Inl e \<Rightarrow> Inl e
      | Inr (key, h') \<Rightarrow>
        (case ParseSeriesKey h' key of Inl e \<Rightarrow> Inl e
         | Inr (name', tags') \<Rightarrow> Inr (bytes_of h' name', map (tag_bytes h') tags')))"


text \<open>
  The comparison in the words of the specification: the standard lexicographic order on
  byte strings (\<open>lexordp\<close> of the library: the first differing byte decides, and a
  proper prefix is less than its extensions), with result -1, 0 or 1.
\<close>

definition lexicographic_compare :: "byte list \<Rightarrow> byte list \<Rightarrow> int" where
  "lexicographic_compare x y = (if ord_class.lexordp x y then - 1 else if ord_class.lexordp y x then 1 else 0)"

text \<open>
  \<open>holds_key h k h0 name tags\<close>: the slice \<open>k\<close> of the store \<open>h\<close> holds an
  encoded key, namely the bytes that \<^verbatim>\<open>AppendSeriesKey(nil, name, tags)\<close> produces
  for the name and tags of the store \<open>h0\<close>. The key may be an allocation of its own,
  the end of a destination it was appended to, or part of the buffer of a bulk
  generation.
\<close>

definition holds_key :: "heap \<Rightarrow> slice \<Rightarrow> heap \<Rightarrow> slice \<Rightarrow> Tag list \<Rightarrow> bool" where
  "holds_key h k h0 name tags =
     (valid h k \<and> valid_input h0 name tags \<and>
      (case AppendSeriesKey h0 NilSlice name tags of Inl e \<Rightarrow> False
       | Inr (k0, h1) \<Rightarrow> bytes_of h k = bytes_of h1 k0))"

text \<open>
  The sub-range of a key that the comparator looks at, and the condition that it lies
  inside the key.
\<close>

definition payload_range :: "byte list \<Rightarrow> byte list" where
  "payload_range A = take (rd16 A (rd16 A 0 + 2)) (drop (rd16 A 0 + 2 + 2) A)"

definition in_bounds :: "byte list \<Rightarrow> bool" where
  "in_bounds A = (rd16 A 0 + 2 + 2 + rd16 A (rd16 A 0 + 2) \<le> length A)"

text \<open>
  \<^verbatim>\<open>CompareSeriesKeys(AppendSeriesKey(nil, na, ta), AppendSeriesKey(nil, nb, tb))\<close>, as
  the tests of the package build their keys.
\<close>

definition Compare_encoded :: "heap \<Rightarrow> slice \<Rightarrow> Tag list \<Rightarrow> slice \<Rightarrow> Tag list \<Rightarrow> panic + int" where
  "Compare_encoded h na ta nb tb =
     (case AppendSeriesKey h NilSlice na ta of Inl e \<Rightarrow> Inl e
      | Inr (a, h1) \<Rightarrow>
        (case AppendSeriesKey h1 NilSlice nb tb of Inl e \<Rightarrow> Inl e
         | Inr (b, h2) \<Rightarrow> CompareSeriesKeys h2 a b))"

text \<open>
  A key as the comparator is meant to receive it: a valid slice that is empty (the
  \<^verbatim>\<open>nil\<close> key, a boundary for the ordering) or holds an encoded key.
\<close>

definition key_or_empty :: "heap \<Rightarrow> slice \<Rightarrow> heap \<Rightarrow> slice \<Rightarrow> Tag list \<Rightarrow> bool" where
  "key_or_empty h k h0 name tags = (valid h k \<and> (len k = 0 \<or> holds_key h k h0 name tags))"

text \<open>
  The result of the comparator as a function of the bytes of the two keys alone.
\<close>

definition key_compare :: "byte list \<Rightarrow> byte list \<Rightarrow> int" where
  "key_compare A B =
     (if A = [] \<and> B = [] then 0
      else if A = [] then - 1
      else if B = [] then 1
      else bytes_Compare (payload_range A) (payload_range B))"

text \<open>
  What a bulk generation returns: the slices of the keys, one after the other in the
  array \<open>b\<close> from offset \<open>off\<close> on, each with the capacity left in the buffer of
  \<open>cp\<close> bytes; the contents of the buffer; and its size.
\<close>

fun key_slices :: "nat \<Rightarrow> nat \<Rightarrow> nat \<Rightarrow> slice list \<Rightarrow> Tag list list \<Rightarrow> slice list" where
  "key_slices b off cp (name # names) (tags # tagsSlice) =
     Slice b off (SeriesKeySize name tags) (cp - off) #
     key_slices b (off + SeriesKeySize name tags) cp names tagsSlice"
| "key_slices b off cp names tagsSlice = []"

fun keys_layout :: "heap \<Rightarrow> slice list \<Rightarrow> Tag list list \<Rightarrow> byte list" where
  "keys_layout h (name # names) (tags # tagsSlice) =
     key_layout h name tags @ keys_layout h names tagsSlice"
| "keys_layout h names tagsSlice = []"

fun total_size :: "slice list \<Rightarrow> Tag list list \<Rightarrow> nat" where
  "total_size (name # names) (tags # tagsSlice) = SeriesKeySize name tags + total_size names tagsSlice"
| "total_size names tagsSlice = 0"

section \<open>Slices, stores and 16-bit fields\<close>

lemma length_be16 [simp]: "length (be16 v) = 2"
  by (simp add: be16_def)

lemma word16_join:
  "(ucast (ucast v :: byte) :: uint16) OR push_bit 8 (ucast (ucast (drop_bit 8 v) :: byte)) = v"
  for v :: uint16
  by (rule bit_word_eqI) (auto simp: bit_simps)

lemma unat_of_nat16: "unat (of_nat n :: uint16) = n mod 65536"
  by (simp add: unat_of_nat)

lemma rd16_be16: "length X = p \<Longrightarrow> rd16 (X @ be16 v @ R) p = unat v"
  by (simp add: rd16_def be16_def nth_append word16_join)

lemma length_bytes_of: "valid h s \<Longrightarrow> length (bytes_of h s) = len s"
  by (cases s) auto

lemma PutUint16_splice:
  "a < length h \<Longrightarrow> h ! a = X @ G @ R \<Longrightarrow> length G = 2 \<Longrightarrow> length X = off + p \<Longrightarrow>
   p + 2 \<le> n \<Longrightarrow> n \<le> c \<Longrightarrow>
   PutUint16 h (Slice a off n c) p v = Inr (h[a := X @ be16 v @ R])"
  by (cases G; cases "tl G")
     (auto simp: PutUint16_def be16_def list_update_append)

lemma GetUint16_rd16:
  "valid h s \<Longrightarrow> p + 2 \<le> len s \<Longrightarrow> GetUint16 h s p = Inr (rd16 (bytes_of h s) p)"
  by (cases s) (auto simp: GetUint16_def rd16_def add.commute)

lemma valid_update [simp]:
  "length A = length (h ! a) \<Longrightarrow> valid (h[a := A]) s = valid h s"
  by (cases s; cases "a < length h") (auto simp: nth_list_update list_update_beyond)

lemma bytes_of_update_apart:
  "apart s a lo hi \<Longrightarrow> take lo A = take lo (h ! a) \<Longrightarrow> drop hi A = drop hi (h ! a) \<Longrightarrow>
   bytes_of (h[a := A]) s = bytes_of h s"
proof (cases s)
  case NilSlice
  then show ?thesis by simp
next
  case (Slice a' off n c)
  assume ap: "apart s a lo hi" and tk: "take lo A = take lo (h ! a)"
    and dr: "drop hi A = drop hi (h ! a)"
  show ?thesis
  proof (cases "a' = a \<and> a < length h")
    case False
    then show ?thesis using Slice by (cases "a < length h") (auto simp: list_update_beyond)
  next
    case True
    then have eq: "h[a := A] ! a' = A" by simp
    from ap Slice True have "off + n \<le> lo \<or> hi \<le> off" by simp
    then show ?thesis
    proof
      assume le: "off + n \<le> lo"
      have *: "take n (drop off B) = take n (drop off (take lo B))" for B :: "byte list"
        using le by (simp add: drop_take min_def)
      show ?thesis using Slice True eq *[of A] *[of "h ! a"] tk by simp
    next
      assume ge: "hi \<le> off"
      have *: "drop off B = drop (off - hi) (drop hi B)" for B :: "byte list"
        using ge by simp
      show ?thesis using Slice True eq *[of A] *[of "h ! a"] dr by simp
    qed
  qed
qed

lemma copy_bytes_splice:
  "a < length h \<Longrightarrow> h ! a = X @ G @ R \<Longrightarrow> length X = off + lo \<Longrightarrow> length G = len src \<Longrightarrow>
   valid h src \<Longrightarrow>
   copy_bytes h (Slice a (off + lo) (len src) c') src = h[a := X @ bytes_of h src @ R]"
  by (simp add: copy_bytes_def length_bytes_of)

lemma layout_table_simps [simp]:
  "layout_table [] = []"
  "layout_table (t # ts) = be16 (of_nat (len (Key t))) @ be16 (of_nat (len (Value t))) @ layout_table ts"
  by (simp_all add: layout_table_def)

lemma layout_payload_simps [simp]:
  "layout_payload h [] = []"
  "layout_payload h (t # ts) = bytes_of h (Key t) @ bytes_of h (Value t) @ layout_payload h ts"
  by (simp_all add: layout_payload_def)

lemma tags_len_simps [simp]:
  "tags_len [] = 0"
  "tags_len (t # ts) = len (Key t) + len (Value t) + tags_len ts"
  by (simp_all add: tags_len_def)

lemma length_layout_table [simp]: "length (layout_table tags) = 4 * length tags"
  by (induction tags) auto

lemma length_layout_payload:
  "list_all (valid_tag h) tags \<Longrightarrow> length (layout_payload h tags) = tags_len tags"
  by (induction tags) (auto simp: valid_tag_def length_bytes_of)

lemma layout_payload_update_apart:
  "list_all (\<lambda>t. apart_tag t a lo hi) tags \<Longrightarrow> take lo A = take lo (h ! a) \<Longrightarrow>
   drop hi A = drop hi (h ! a) \<Longrightarrow> layout_payload (h[a := A]) tags = layout_payload h tags"
  by (induction tags) (auto simp: apart_tag_def bytes_of_update_apart)

lemma split_length:
  "length G = m + k \<Longrightarrow> \<exists>G1 G2. G = G1 @ G2 \<and> length G1 = m \<and> length G2 = k"
  by (rule exI [of _ "take m G"], rule exI [of _ "drop m G"]) simp

section \<open>The encoder writes the layout\<close>

lemma valid_tag_update:
  "length A = length (h ! a) \<Longrightarrow> valid_tag (h[a := A]) = valid_tag h"
  by (rule ext) (simp add: valid_tag_def)

text \<open>
  The loop over the tags. The array written to is cut into the part before the table
  entry of the first tag (\<open>X\<close>), the rest of the table (\<open>T\<close>), the part between
  the table and the payload position (\<open>Y\<close>), the payload still to be written
  (\<open>P\<close>) and the rest (\<open>Z\<close>). The loop replaces \<open>T\<close> by the table and \<open>P\<close> by
  the payload of the tags and does not panic, whatever \<open>T\<close> and \<open>P\<close> held before.
\<close>

lemma AppendSeriesKey_tags_splice:
  "a < length h \<Longrightarrow> h ! a = X @ T @ Y @ P @ Z \<Longrightarrow> length X = off + opos \<Longrightarrow>
   length T = 4 * length tags \<Longrightarrow> opos + 4 * length tags + length Y = bpos \<Longrightarrow>
   length P = tags_len tags \<Longrightarrow> opos + 4 * length tags \<le> n \<Longrightarrow> n \<le> c \<Longrightarrow>
   bpos + tags_len tags \<le> c \<Longrightarrow> off + bpos + tags_len tags \<le> hi \<Longrightarrow>
   list_all (valid_tag h) tags \<Longrightarrow> list_all (\<lambda>t. apart_tag t a off hi) tags \<Longrightarrow>
   AppendSeriesKey_tags h (Slice a off n c) tags opos bpos =
     Inr (h[a := X @ layout_table tags @ Y @ layout_payload h tags @ Z])"
proof (induction tags arbitrary: h X T Y P opos bpos)
  case Nil
  then show ?case by (simp add: list_update_same_conv [THEN iffD2])
next
  case (Cons t ts)
  let ?k = "Key t" and ?v = "Value t"
  let ?bk = "bytes_of h (Key t)" and ?bv = "bytes_of h (Value t)"
  let ?ek = "be16 (of_nat (len ?k))" and ?ev = "be16 (of_nat (len ?v))"
  from Cons.prems have vts: "list_all (valid_tag h) ts"
    and ats: "list_all (\<lambda>t. apart_tag t a off hi) ts"
    and vt: "valid_tag h t" and "apart_tag t a off hi"
    by simp_all
  then have vk: "valid h ?k" and vv: "valid h ?v"
    and ak: "apart ?k a off hi" and av: "apart ?v a off hi"
    by (simp_all add: valid_tag_def apart_tag_def)
  from Cons.prems(4) obtain G1 T0 where T0: "T = G1 @ T0" "length G1 = 2" "length T0 = 2 + 4 * length ts"
    using split_length [of T 2 "2 + 4 * length ts"] by auto
  from T0(3) obtain G2 T' where T': "T0 = G2 @ T'" "length G2 = 2" "length T' = 4 * length ts"
    using split_length [of T0 2 "4 * length ts"] by auto
  from Cons.prems(6) obtain Pk P0 where P0: "P = Pk @ P0" "length Pk = len ?k"
      "length P0 = len ?v + tags_len ts"
    using split_length [of P "len ?k" "len ?v + tags_len ts"] by auto
  from P0(3) obtain Pv P' where P': "P0 = Pv @ P'" "length Pv = len ?v" "length P' = tags_len ts"
    using split_length [of P0 "len ?v" "tags_len ts"] by auto
  let ?out = "Slice a off n c"
  let ?A1 = "X @ ?ek @ G2 @ T' @ Y @ Pk @ Pv @ P' @ Z"
  let ?A2 = "X @ ?ek @ G2 @ T' @ Y @ ?bk @ Pv @ P' @ Z"
  let ?A3 = "X @ ?ek @ ?ev @ T' @ Y @ ?bk @ Pv @ P' @ Z"
  let ?A4 = "X @ ?ek @ ?ev @ T' @ Y @ ?bk @ ?bv @ P' @ Z"
  have lenA: "length (h ! a) = length X + 4 + 4 * length ts + length Y + len ?k + len ?v + tags_len ts + length Z"
    using Cons.prems(2) T0 T' P0 P' by simp
  have s1: "PutUint16 h ?out opos (of_nat (len ?k)) = Inr (h[a := ?A1])"
    using Cons.prems T0 T' P0 P'
    by (intro PutUint16_splice [where G = G1, THEN trans]) simp_all
  have r1: "reslice ?out bpos (bpos + len ?k) = Inr (Slice a (off + bpos) (len ?k) (c - bpos))"
    using Cons.prems by simp
  have tk1: "take off A = take off (h ! a)" if "A = X @ B" "length B + length X = length (h ! a)" for A B
    using that Cons.prems(2,3) by simp
  have st1: "bytes_of (h[a := ?A1]) s = bytes_of h s" if "apart s a off hi" for s
    using that Cons.prems T0 T' P0 P' lenA
    by (intro bytes_of_update_apart [where lo = off and hi = hi]) simp_all
  have s2: "copy_bytes (h[a := ?A1]) (Slice a (off + bpos) (len ?k) (c - bpos)) ?k = h[a := ?A2]"
    using Cons.prems T0 T' P0 P' vk st1 [OF ak] lenA
    by (subst copy_bytes_splice [where X = "X @ ?ek @ G2 @ T' @ Y" and G = Pk and R = "Pv @ P' @ Z"])
       simp_all
  have s3: "PutUint16 (h[a := ?A2]) ?out (opos + 2) (of_nat (len ?v)) = Inr (h[a := ?A3])"
    using Cons.prems T0 T' P0 P' vk
    by (subst PutUint16_splice [where X = "X @ ?ek" and G = G2 and R = "T' @ Y @ ?bk @ Pv @ P' @ Z"])
       (simp_all add: length_bytes_of)
  have r2: "reslice ?out (bpos + len ?k) (bpos + len ?k + len ?v) =
      Inr (Slice a (off + (bpos + len ?k)) (len ?v) (c - (bpos + len ?k)))"
    using Cons.prems by simp
  have st3: "bytes_of (h[a := ?A3]) s = bytes_of h s" if "apart s a off hi" for s
    using that Cons.prems T0 T' P0 P' lenA vk
    by (intro bytes_of_update_apart [where lo = off and hi = hi]) (simp_all add: length_bytes_of)
  have s4: "copy_bytes (h[a := ?A3]) (Slice a (off + (bpos + len ?k)) (len ?v) (c - (bpos + len ?k))) ?v
      = h[a := ?A4]"
    using Cons.prems T0 T' P0 P' vk vv st3 [OF av] lenA
    by (subst copy_bytes_splice [where X = "X @ ?ek @ ?ev @ T' @ Y @ ?bk" and G = Pv and R = "P' @ Z"])
       (simp_all add: length_bytes_of)
  have tk4: "take off ?A4 = take off (h ! a)"
    using Cons.prems by simp
  have dr4: "drop hi ?A4 = drop hi (h ! a)"
    using Cons.prems T0 T' P0 P' vk vv by (simp add: length_bytes_of)
  have pl: "layout_payload (h[a := ?A4]) ts = layout_payload h ts"
    using ats tk4 dr4 by (rule layout_payload_update_apart)
  have len4: "length ?A4 = length (h ! a)"
    using lenA vk vv T' P' by (simp add: length_bytes_of)
  have vts4: "list_all (valid_tag (h[a := ?A4])) ts"
    using vts by (simp only: valid_tag_update [OF len4])
  have ih: "AppendSeriesKey_tags (h[a := ?A4]) ?out ts (opos + 4) (bpos + len ?k + len ?v) =
      Inr ((h[a := ?A4])[a := (X @ ?ek @ ?ev) @ layout_table ts @ (Y @ ?bk @ ?bv) @
        layout_payload (h[a := ?A4]) ts @ Z])"
    using Cons.prems T' P' vk vv vts4 ats
    by (intro Cons.IH [where T = T' and P = P']) (simp_all add: length_bytes_of)
  show ?case
    using s1 r1 s2 s3 r2 s4 ih pl by (simp add: add.assoc)
qed

lemma SeriesKeyBytesSize_loop_eq: "SeriesKeyBytesSize_loop n tags = n + tags_len tags"
  by (induction tags arbitrary: n) auto

lemma SeriesKeyBytesSize_eq: "SeriesKeyBytesSize name tags = len name + tags_len tags"
  by (simp add: SeriesKeyBytesSize_def SeriesKeyBytesSize_loop_eq)

lemma SeriesKeySize_eq: "SeriesKeySize name tags = 6 + 4 * length tags + len name + tags_len tags"
  by (simp add: SeriesKeySize_def SeriesKeyOffsetsSize_def SeriesKeyBytesSize_eq)

lemma length_key_layout:
  "valid h name \<Longrightarrow> list_all (valid_tag h) tags \<Longrightarrow>
   length (key_layout h name tags) = SeriesKeySize name tags"
  by (simp add: key_layout_def SeriesKeySize_eq length_bytes_of length_layout_payload)

text \<open>
  Lines 30 to 58: whatever the window \<open>out\<close> held, after the writes it holds the
  layout of the key, and nothing else of the store has changed.
\<close>

lemma AppendSeriesKey_write:
  assumes dst: "AppendSeriesKey_dst h dst (SeriesKeySize name tags) = Inr (d', Slice a off sz c, h0)"
    and a: "a < length h0" and arr: "h0 ! a = Pre @ G @ Post"
    and lens: "length Pre = off" "length G = sz" "sz = SeriesKeySize name tags" "sz \<le> c"
    and vn: "valid h0 name" and vts: "list_all (valid_tag h0) tags"
    and an: "apart name a off (off + sz)" and ats: "list_all (\<lambda>t. apart_tag t a off (off + sz)) tags"
  shows "AppendSeriesKey h dst name tags = Inr (d', h0[a := Pre @ key_layout h0 name tags @ Post])"
proof -
  let ?ofs = "SeriesKeyOffsetsSize (length tags)" and ?byt = "SeriesKeyBytesSize name tags"
  let ?out = "Slice a off sz c"
  have sz: "sz = 6 + 4 * length tags + len name + tags_len tags"
    using lens by (simp add: SeriesKeySize_eq)
  have ofs: "?ofs = 2 + 4 * length tags"
    by (simp add: SeriesKeyOffsetsSize_def)
  from lens(2) sz obtain G1 R1 where G1: "G = G1 @ R1" "length G1 = 2"
      "length R1 = 4 + 4 * length tags + len name + tags_len tags"
    using split_length [of G 2 "4 + 4 * length tags + len name + tags_len tags"] by auto
  from G1(3) obtain G2 R2 where G2: "R1 = G2 @ R2" "length G2 = 2"
      "length R2 = 2 + 4 * length tags + len name + tags_len tags"
    using split_length [of R1 2 "2 + 4 * length tags + len name + tags_len tags"] by auto
  from G2(3) obtain T R3 where T: "R2 = T @ R3" "length T = 4 * length tags"
      "length R3 = 2 + len name + tags_len tags"
    using split_length [of R2 "4 * length tags" "2 + len name + tags_len tags"] by auto
  from T(3) obtain G3 R4 where G3: "R3 = G3 @ R4" "length G3 = 2"
      "length R4 = len name + tags_len tags"
    using split_length [of R3 2 "len name + tags_len tags"] by auto
  from G3(3) obtain N P where N: "R4 = N @ P" "length N = len name" "length P = tags_len tags"
    using split_length [of R4 "len name" "tags_len tags"] by auto
  let ?e1 = "be16 (of_nat ?ofs)" and ?e2 = "be16 (of_nat (len name))" and ?e3 = "be16 (of_nat ?byt)"
  let ?bn = "bytes_of h0 name"
  let ?A1 = "Pre @ ?e1 @ G2 @ T @ G3 @ N @ P @ Post"
  let ?A2 = "Pre @ ?e1 @ ?e2 @ T @ G3 @ N @ P @ Post"
  let ?A3 = "Pre @ ?e1 @ ?e2 @ T @ ?e3 @ N @ P @ Post"
  let ?A4 = "Pre @ ?e1 @ ?e2 @ T @ ?e3 @ ?bn @ P @ Post"
  have lenA: "length (h0 ! a) = off + sz + length Post"
    using arr lens by simp
  have s1: "PutUint16 h0 ?out 0 (of_nat ?ofs) = Inr (h0[a := ?A1])"
    using a arr lens G1 G2 T G3 N sz
    by (intro PutUint16_splice [where G = G1, THEN trans]) simp_all
  have s2: "PutUint16 (h0[a := ?A1]) ?out 2 (of_nat (len name)) = Inr (h0[a := ?A2])"
    using a lens G1 G2 T G3 N sz
    by (subst PutUint16_splice [where X = "Pre @ ?e1" and G = G2 and R = "T @ G3 @ N @ P @ Post"])
       simp_all
  have s3: "PutUint16 (h0[a := ?A2]) ?out (?ofs + 2) (of_nat ?byt) = Inr (h0[a := ?A3])"
    using a lens G1 G2 T G3 N sz ofs
    by (subst PutUint16_splice [where X = "Pre @ ?e1 @ ?e2 @ T" and G = G3 and R = "N @ P @ Post"])
       simp_all
  have r: "reslice ?out (?ofs + 2 + 2) (?ofs + 2 + 2 + len name) =
      Inr (Slice a (off + (?ofs + 2 + 2)) (len name) (c - (?ofs + 2 + 2)))"
    using lens sz ofs by simp
  have st3: "bytes_of (h0[a := ?A3]) s = bytes_of h0 s" if "apart s a off (off + sz)" for s
    using that arr lens G1 G2 T G3 N sz
    by (intro bytes_of_update_apart [where lo = off and hi = "off + sz"]) simp_all
  have len3: "length ?A3 = length (h0 ! a)"
    using lenA lens G1 G2 T G3 N sz by simp
  have s4: "copy_bytes (h0[a := ?A3]) (Slice a (off + (?ofs + 2 + 2)) (len name) (c - (?ofs + 2 + 2))) name
      = h0[a := ?A4]"
    using a lens G1 G2 T G3 N sz ofs vn st3 [OF an] len3
    by (subst copy_bytes_splice [where X = "Pre @ ?e1 @ ?e2 @ T @ ?e3" and G = N and R = "P @ Post"])
       simp_all
  have len4: "length ?A4 = length (h0 ! a)"
    using lenA lens G1 G2 T G3 N sz vn by (simp add: length_bytes_of)
  have tk4: "take off ?A4 = take off (h0 ! a)"
    using arr lens by simp
  have dr4: "drop (off + sz) ?A4 = drop (off + sz) (h0 ! a)"
    using arr lens G1 G2 T G3 N sz vn by (simp add: length_bytes_of)
  have pl: "layout_payload (h0[a := ?A4]) tags = layout_payload h0 tags"
    using ats tk4 dr4 by (rule layout_payload_update_apart)
  have vts4: "list_all (valid_tag (h0[a := ?A4])) tags"
    using vts by (simp only: valid_tag_update [OF len4])
  have s5: "AppendSeriesKey_tags (h0[a := ?A4]) ?out tags 4 (?ofs + 2 + 2 + len name) =
      Inr ((h0[a := ?A4])[a := (Pre @ ?e1 @ ?e2) @ layout_table tags @ (?e3 @ ?bn) @
        layout_payload (h0[a := ?A4]) tags @ Post])"
    using a lens T N sz ofs vn vts4 ats
    by (intro AppendSeriesKey_tags_splice [where T = T and P = P and hi = "off + sz"])
       (simp_all add: length_bytes_of)
  show ?thesis
    unfolding AppendSeriesKey_def Let_def
    using dst s1 s2 s3 r s4 s5 pl lens(3)
    by (simp add: SeriesKeySize_def key_layout_def)
qed

lemma valid_append: "valid h s \<Longrightarrow> valid (h @ hs) s"
  by (cases s) (auto simp: nth_append)

lemma bytes_of_append: "valid h s \<Longrightarrow> bytes_of (h @ hs) s = bytes_of h s"
  by (cases s) (auto simp: nth_append)

lemma valid_apart_fresh: "valid h s \<Longrightarrow> apart s (length h) lo hi"
  by (cases s) auto

lemma valid_tag_append: "valid_tag h t \<Longrightarrow> valid_tag (h @ hs) t"
  by (simp add: valid_tag_def valid_append)

lemma valid_input_append: "valid_input h name tags \<Longrightarrow> valid_input (h @ hs) name tags"
  by (auto simp: valid_input_def valid_append list_all_iff valid_tag_append)

lemma apart_input_fresh: "valid_input h name tags \<Longrightarrow> apart_input name tags (length h) lo hi"
  by (auto simp: valid_input_def apart_input_def valid_apart_fresh list_all_iff valid_tag_def apart_tag_def)

lemma layout_payload_append:
  "list_all (valid_tag h) tags \<Longrightarrow> layout_payload (h @ hs) tags = layout_payload h tags"
  by (induction tags) (auto simp: valid_tag_def bytes_of_append)

lemma key_layout_append:
  "valid_input h name tags \<Longrightarrow> key_layout (h @ hs) name tags = key_layout h name tags"
  by (simp add: key_layout_def valid_input_def bytes_of_append layout_payload_append)

text \<open>
  The three ways of a call: a \<^verbatim>\<open>nil\<close> destination (a new array of exactly the size of
  the key), a destination with room (the key is written into its spare capacity), and a
  destination without (a new array that holds the old contents and the key).
\<close>

lemma AppendSeriesKey_nil:
  assumes "valid_input h name tags"
  shows "AppendSeriesKey h NilSlice name tags =
    Inr (Slice (length h) 0 (SeriesKeySize name tags) (SeriesKeySize name tags),
         h @ [key_layout h name tags])"
proof -
  let ?sz = "SeriesKeySize name tags"
  let ?h0 = "h @ [replicate ?sz 0]"
  have d: "AppendSeriesKey_dst h NilSlice ?sz = Inr (Slice (length h) 0 ?sz ?sz, Slice (length h) 0 ?sz ?sz, ?h0)"
    by (simp add: AppendSeriesKey_dst_def make_bytes_def)
  have v: "valid_input ?h0 name tags"
    using assms by (rule valid_input_append)
  have ap: "apart_input name tags (length h) 0 (0 + ?sz)"
    using assms by (rule apart_input_fresh)
  have "AppendSeriesKey h NilSlice name tags =
      Inr (Slice (length h) 0 ?sz ?sz, ?h0[length h := [] @ key_layout ?h0 name tags @ []])"
    using v ap
    by (intro AppendSeriesKey_write [OF d, where G = "replicate ?sz 0"])
       (simp_all add: valid_input_def apart_input_def)
  then show ?thesis
    using assms by (simp add: key_layout_append)
qed

lemma AppendSeriesKey_inplace:
  assumes v: "valid_input h name tags" and d: "valid h (Slice a off n c)"
    and fit: "SeriesKeySize name tags \<le> c - n"
    and ap: "apart_input name tags a (off + n) (off + n + SeriesKeySize name tags)"
  shows "AppendSeriesKey h (Slice a off n c) name tags =
    Inr (Slice a off (n + SeriesKeySize name tags) c,
         h[a := take (off + n) (h ! a) @ key_layout h name tags @
                drop (off + n + SeriesKeySize name tags) (h ! a)])"
proof -
  let ?sz = "SeriesKeySize name tags"
  have sz: "0 < ?sz" by (simp add: SeriesKeySize_eq)
  have dst: "AppendSeriesKey_dst h (Slice a off n c) ?sz =
      Inr (Slice a off (n + ?sz) c, Slice a (off + n) ?sz (c - n), h)"
    using d fit sz by (auto simp: AppendSeriesKey_dst_def)
  have arr: "h ! a = take (off + n) (h ! a) @ take ?sz (drop (off + n) (h ! a)) @
      drop (off + n + ?sz) (h ! a)"
    by (metis append_take_drop_id drop_drop add.commute)
  show ?thesis
    using v d fit ap
    by (intro AppendSeriesKey_write [OF dst _ arr]) (auto simp: valid_input_def apart_input_def)
qed


section \<open>The decoder and the round trip\<close>

lemma length_tag_views [simp]: "length (tag_views a base cp bpos ts) = length ts"
  by (induction ts arbitrary: bpos) auto

lemma unat_of_nat16_small: "n \<le> 65535 \<Longrightarrow> unat (of_nat n :: uint16) = n"
  by (simp add: unat_of_nat16)

lemma bytes_of_sub:
  "p + l \<le> n \<Longrightarrow>
   bytes_of h (Slice a (off + p) l c') = take l (drop p (bytes_of h (Slice a off n c)))"
  by (simp add: drop_take min_def add.commute)

lemma ParseSeriesKeyTags_loop_views:
  "valid h (Slice a off n c) \<Longrightarrow> bytes_of h (Slice a off n c) = X @ layout_table ts @ R \<Longrightarrow>
   length X = opos \<Longrightarrow> list_all small_tag ts \<Longrightarrow> length cont = i + length ts \<Longrightarrow>
   bpos + tags_len ts \<le> cp \<Longrightarrow>
   ParseSeriesKeyTags_loop h (Slice a off n c) (Slice a base m cp) cont i opos bpos =
     Inr (take i cont @ tag_views a base cp bpos ts)"
proof (induction ts arbitrary: X cont i opos bpos)
  case Nil
  then show ?case by (subst ParseSeriesKeyTags_loop.simps) simp
next
  case (Cons t ts)
  let ?data = "Slice a off n c"
  let ?ek = "be16 (of_nat (len (Key t)))" and ?ev = "be16 (of_nat (len (Value t)))"
  from Cons.prems have sm: "len (Key t) \<le> 65535" "len (Value t) \<le> 65535"
    by (simp_all add: small_tag_def)
  have n: "length (bytes_of h ?data) = n"
    using Cons.prems(1) length_bytes_of [of h ?data] by simp
  have "length (bytes_of h ?data) = length (X @ layout_table (t # ts) @ R)"
    by (simp only: Cons.prems(2))
  then have room: "opos + 4 \<le> n"
    using n Cons.prems(3) by simp
  have g1: "GetUint16 h ?data opos = Inr (len (Key t))"
    using Cons.prems room sm
    by (simp add: GetUint16_rd16 rd16_be16 [where X = X] unat_of_nat16_small)
  have g2: "GetUint16 h ?data (opos + 2) = Inr (len (Value t))"
    using Cons.prems room sm rd16_be16 [where X = "X @ ?ek" and p = "opos + 2" and v = "of_nat (len (Value t))"]
    by (simp add: GetUint16_rd16 unat_of_nat16_small)
  have ih: "ParseSeriesKeyTags_loop h ?data (Slice a base m cp)
      (cont[i := \<lparr>Key = Slice a (base + bpos) (len (Key t)) (cp - bpos),
        Value = Slice a (base + (bpos + len (Key t))) (len (Value t)) (cp - (bpos + len (Key t)))\<rparr>])
      (Suc i) (opos + 4) (bpos + len (Key t) + len (Value t)) =
      Inr (take (Suc i) (cont[i := \<lparr>Key = Slice a (base + bpos) (len (Key t)) (cp - bpos),
        Value = Slice a (base + (bpos + len (Key t))) (len (Value t)) (cp - (bpos + len (Key t)))\<rparr>]) @
        tag_views a base cp (bpos + len (Key t) + len (Value t)) ts)"
    using Cons.prems
    by (intro Cons.IH [where X = "X @ ?ek @ ?ev"]) simp_all
  show ?case
    using Cons.prems g1 g2 ih
    by (subst ParseSeriesKeyTags_loop.simps)
       (simp add: take_Suc_conv_app_nth add.assoc)
qed

lemma tag_views_bytes:
  "list_all (valid_tag h0) ts \<Longrightarrow>
   take (tags_len ts) (drop (base + bpos) (h ! a)) = layout_payload h0 ts \<Longrightarrow>
   map (\<lambda>t. (bytes_of h (Key t), bytes_of h (Value t))) (tag_views a base cp bpos ts) =
   map (\<lambda>t. (bytes_of h0 (Key t), bytes_of h0 (Value t))) ts"
proof (induction ts arbitrary: bpos)
  case Nil
  then show ?case by simp
next
  case (Cons t ts)
  let ?k = "len (Key t)" and ?v = "len (Value t)"
  let ?D = "drop (base + bpos) (h ! a)"
  from Cons.prems(1) have vt: "valid_tag h0 t" and vts: "list_all (valid_tag h0) ts"
    by simp_all
  from vt have lk: "length (bytes_of h0 (Key t)) = ?k"
    and lv: "length (bytes_of h0 (Value t)) = ?v"
    by (simp_all add: valid_tag_def length_bytes_of)
  have eq: "take (?k + ?v + tags_len ts) ?D =
      bytes_of h0 (Key t) @ bytes_of h0 (Value t) @ layout_payload h0 ts"
    using Cons.prems(2) by simp
  have k: "take ?k ?D = bytes_of h0 (Key t)"
    using arg_cong [OF eq, of "take ?k"] lk by (simp add: min_def)
  have v: "take ?v (drop ?k ?D) = bytes_of h0 (Value t)"
    using arg_cong [OF eq, of "\<lambda>xs. take ?v (drop ?k xs)"] lk lv by (simp add: drop_take min_def)
  have r: "take (tags_len ts) (drop (?k + ?v) ?D) = layout_payload h0 ts"
    using arg_cong [OF eq, of "drop (?k + ?v)"] lk lv by (simp add: drop_take)
  have "map (\<lambda>t. (bytes_of h (Key t), bytes_of h (Value t)))
          (tag_views a base cp (bpos + ?k + ?v) ts) =
        map (\<lambda>t. (bytes_of h0 (Key t), bytes_of h0 (Value t))) ts"
    using vts r by (intro Cons.IH) (simp_all add: drop_drop ac_simps)
  then show ?case
    using k v by (simp add: drop_drop ac_simps)
qed

lemma tag_views_tag_bytes:
  "list_all (valid_tag h0) ts \<Longrightarrow>
   take (tags_len ts) (drop (base + bpos) (h ! a)) = layout_payload h0 ts \<Longrightarrow>
   map (tag_bytes h) (tag_views a base cp bpos ts) = map (tag_bytes h0) ts"
  using tag_views_bytes [of h0 ts base bpos h a cp]
  by (simp add: tag_bytes_def [abs_def])

lemma ParseSeriesKeyTags_loop_empty:
  "ParseSeriesKeyTags_loop h data byts [] 0 opos bpos = Inr []"
  by (subst ParseSeriesKeyTags_loop.simps) simp

text \<open>
  The decoder on a slice that holds the layout of a key with at most 16383 tags and
  fields of at most 65535 bytes: it returns windows on the key's own array, and their
  contents are the name and the tags.
\<close>

lemma ParseSeriesKey_layout:
  assumes v: "valid h (Slice a off n c)"
    and b: "bytes_of h (Slice a off n c) = key_layout h0 name tags"
    and vi: "valid_input h0 name tags"
    and small: "length tags \<le> 16383" "len name \<le> 65535" "list_all small_tag tags"
  shows "ParseSeriesKey h (Slice a off n c) =
      Inr (Slice a (off + (6 + 4 * length tags)) (len name) (c - (6 + 4 * length tags)),
           tag_views a (off + (6 + 4 * length tags)) (c - (6 + 4 * length tags)) (len name) tags)"
    and "bytes_of h (Slice a (off + (6 + 4 * length tags)) (len name) c') = bytes_of h0 name"
    and "map (tag_bytes h)
           (tag_views a (off + (6 + 4 * length tags)) cp (len name) tags) = map (tag_bytes h0) tags"
proof -
  let ?data = "Slice a off n c"
  let ?L = "length tags"
  let ?e1 = "be16 (of_nat (SeriesKeyOffsetsSize ?L))" and ?e2 = "be16 (of_nat (len name))"
  let ?e3 = "be16 (of_nat (SeriesKeyBytesSize name tags))"
  have vn: "valid h0 name" and vts: "list_all (valid_tag h0) tags"
    using vi by (simp_all add: valid_input_def)
  have ln: "length (bytes_of h0 name) = len name"
    using vn by (rule length_bytes_of)
  have n: "n = SeriesKeySize name tags"
    using length_bytes_of [OF v] b length_key_layout [OF vn vts] by (simp del: bytes_of.simps)
  then have n': "n = 6 + 4 * ?L + len name + tags_len tags"
    by (simp add: SeriesKeySize_eq)
  have nc: "n \<le> c" using v by simp
  have B: "bytes_of h ?data = ?e1 @ ?e2 @ layout_table tags @ ?e3 @ bytes_of h0 name @ layout_payload h0 tags"
    using b by (simp add: key_layout_def)
  have ofs': "SeriesKeyOffsetsSize ?L = 2 + 4 * ?L"
    by (simp add: SeriesKeyOffsetsSize_def)
  then have "SeriesKeyOffsetsSize ?L \<le> 65535"
    using small(1) by simp
  then have ofs: "unat (of_nat (SeriesKeyOffsetsSize ?L) :: uint16) = 2 + 4 * ?L"
    using ofs' by (simp only: unat_of_nat16_small)
  have r0: "rd16 (bytes_of h ?data) 0 = 2 + 4 * ?L"
    unfolding B using rd16_be16 [where X = "[]" and p = 0 and v = "of_nat (SeriesKeyOffsetsSize ?L)"] ofs
    by simp
  have r2: "rd16 (bytes_of h ?data) 2 = len name"
    unfolding B using small(2) rd16_be16 [where X = ?e1 and p = 2 and v = "of_nat (len name)"]
    by (simp add: unat_of_nat16_small)
  have g0: "GetUint16 h ?data 0 = Inr (2 + 4 * ?L)"
    using v n' r0 by (subst GetUint16_rd16) simp_all
  have g2: "GetUint16 h ?data 2 = Inr (len name)"
    using v n' r2 by (subst GetUint16_rd16) simp_all
  have tagN: "(2 + 4 * ?L - 2) div 4 = ?L" by simp
  let ?base = "off + (6 + 4 * ?L)" and ?cp = "c - (6 + 4 * ?L)"
  have loop: "ParseSeriesKeyTags_loop h ?data (Slice a ?base (n - (6 + 4 * ?L)) ?cp)
      (replicate ?L \<lparr>Key = NilSlice, Value = NilSlice\<rparr>) 0 4 (len name) =
      Inr (take 0 (replicate ?L \<lparr>Key = NilSlice, Value = NilSlice\<rparr>) @
           tag_views a ?base ?cp (len name) tags)"
  proof (rule ParseSeriesKeyTags_loop_views [OF v _ _ small(3)])
    show "bytes_of h ?data = (?e1 @ ?e2) @ layout_table tags @ ?e3 @ bytes_of h0 name @ layout_payload h0 tags"
      by (simp only: B append_assoc)
    show "length (?e1 @ ?e2) = 4" by simp
    show "length (replicate ?L \<lparr>Key = NilSlice, Value = NilSlice\<rparr>) = 0 + ?L" by simp
    show "len name + tags_len tags \<le> ?cp" using n' nc by simp
  qed
  show "ParseSeriesKey h ?data = Inr (Slice a ?base (len name) ?cp, tag_views a ?base ?cp (len name) tags)"
    using g0 g2 loop n' nc
    by (cases "?L = 0")
       (simp_all add: ParseSeriesKey_def ParseSeriesKeyTags_def Let_def
          ParseSeriesKeyTags_loop_empty del: add_2_eq_Suc add_2_eq_Suc')
  have D: "drop (6 + 4 * ?L) (bytes_of h ?data) = bytes_of h0 name @ layout_payload h0 tags"
    by (simp add: B del: bytes_of.simps)
  have "bytes_of h (Slice a ?base (len name) c') = take (len name) (drop (6 + 4 * ?L) (bytes_of h ?data))"
    using n' by (intro bytes_of_sub) simp
  then show "bytes_of h (Slice a ?base (len name) c') = bytes_of h0 name"
    using ln by (simp add: D del: bytes_of.simps)
  have "bytes_of h (Slice a (off + (6 + 4 * ?L + len name)) (tags_len tags) c') =
      take (tags_len tags) (drop (6 + 4 * ?L + len name) (bytes_of h ?data))"
    using n' by (intro bytes_of_sub) simp
  also have "drop (6 + 4 * ?L + len name) (bytes_of h ?data) = layout_payload h0 tags"
    using arg_cong [OF D, of "drop (len name)"] ln by (simp add: add.commute del: bytes_of.simps)
  finally have "take (tags_len tags) (drop (?base + len name) (h ! a)) = layout_payload h0 tags"
    using length_layout_payload [OF vts] by (simp add: add.assoc)
  with vts show "map (tag_bytes h) (tag_views a ?base cp (len name) tags) = map (tag_bytes h0) tags"
    by (rule tag_views_tag_bytes)
qed

lemma valid_key_nil:
  "valid_input h name tags \<Longrightarrow>
   valid (h @ [key_layout h name tags])
     (Slice (length h) 0 (SeriesKeySize name tags) (SeriesKeySize name tags))"
  by (simp add: length_key_layout valid_input_def)

lemma bytes_key_nil:
  "valid_input h name tags \<Longrightarrow>
   bytes_of (h @ [key_layout h name tags])
     (Slice (length h) 0 (SeriesKeySize name tags) (SeriesKeySize name tags)) = key_layout h name tags"
  by (simp add: length_key_layout valid_input_def)

lemma AppendSeriesKey_nil_bytes:
  assumes "valid_input h name tags"
  shows "\<exists>key hk. AppendSeriesKey h NilSlice name tags = Inr (key, hk) \<and>
           bytes_of hk key = key_layout h name tags"
  using AppendSeriesKey_nil [OF assms] bytes_key_nil [OF assms] by (simp del: bytes_of.simps)

lemma tag_bytes_append:
  "list_all (valid_tag h) tags \<Longrightarrow> map (tag_bytes (h @ hs)) tags = map (tag_bytes h) tags"
  by (induction tags) (auto simp: tag_bytes_def valid_tag_def bytes_of_append)

text \<open>
  C1 (round trip), as the code has it. For every name and ordered tag set, held in valid
  slices, whose name, tag keys and tag values are each at most 65535 bytes long and which
  has at most 16383 tags, decoding the encoded key returns the original components:
  \<^verbatim>\<open>ParseSeriesKey(AppendSeriesKey(nil, name, tags))\<close> yields a name with the bytes of
  the input name and a tag list of the same length whose i-th key and value have the
  bytes of the i-th input key and value, in the order supplied. The bound on the number
  of tags is needed because the first header holds \<^verbatim>\<open>2 + 4*len(tags)\<close> in 16 bits.
\<close>

theorem C1_round_trip:
  assumes "valid_input h name tags" and "len name \<le> 65535" and "list_all small_tag tags"
    and "length tags \<le> 16383"
  shows "ParseSeriesKey_of_AppendSeriesKey h name tags = Inr (bytes_of h name, map (tag_bytes h) tags)"
proof -
  let ?sz = "SeriesKeySize name tags"
  let ?key = "Slice (length h) 0 ?sz ?sz"
  let ?h' = "h @ [key_layout h name tags]"
  let ?base = "0 + (6 + 4 * length tags)"
  have vi': "valid_input ?h' name tags"
    using assms(1) by (rule valid_input_append)
  have b: "bytes_of ?h' ?key = key_layout ?h' name tags"
    using assms(1) by (simp only: bytes_key_nil key_layout_append)
  note P = ParseSeriesKey_layout [OF valid_key_nil [OF assms(1)] b vi' assms(4,2,3)]
  have vn: "valid h name" and vts: "list_all (valid_tag h) tags"
    using assms(1) by (simp_all add: valid_input_def)
  show ?thesis
    unfolding ParseSeriesKey_of_AppendSeriesKey_def
    by (simp only: AppendSeriesKey_nil [OF assms(1)] P sum.case prod.case
          bytes_of_append [OF vn] tag_bytes_append [OF vts])
qed

lemma tags_len_replicate: "tags_len (replicate n t) = n * (len (Key t) + len (Value t))"
  by (induction n) auto

lemma ParseSeriesKey_no_tags:
  assumes v: "valid h (Slice a off n c)"
    and b: "bytes_of h (Slice a off n c) = be16 v1 @ be16 v2 @ R"
    and small: "unat v1 < 6" "unat v1 + 4 \<le> n" "unat v2 \<le> c - (unat v1 + 4)"
  shows "ParseSeriesKey h (Slice a off n c) =
      Inr (Slice a (off + (unat v1 + 4)) (unat v2) (c - (unat v1 + 4)), [])"
proof -
  let ?data = "Slice a off n c"
  have r0: "rd16 (bytes_of h ?data) 0 = unat v1"
    unfolding b using rd16_be16 [where X = "[]" and p = 0 and v = v1] by simp
  have r2: "rd16 (bytes_of h ?data) 2 = unat v2"
    unfolding b using rd16_be16 [where X = "be16 v1" and p = 2 and v = v2] by simp
  have g0: "GetUint16 h ?data 0 = Inr (unat v1)"
    using v small r0 by (subst GetUint16_rd16) simp_all
  have g2: "GetUint16 h ?data 2 = Inr (unat v2)"
    using v small r2 by (subst GetUint16_rd16) simp_all
  have tagN: "(unat v1 - 2) div 4 = 0"
    using small(1) by simp
  show ?thesis
    using g0 g2 small v tagN
    by (simp add: ParseSeriesKey_def ParseSeriesKeyTags_def Let_def
          ParseSeriesKeyTags_loop_empty ac_simps del: add_2_eq_Suc add_2_eq_Suc')
qed

text \<open>
  C1 as stated fails: 16384 tags with empty keys and values, and an empty name, have
  every field within 65535 bytes, but the size of the offsets section, 65538, is written
  as 2, and the decoder returns no tag at all.
\<close>

theorem C1_round_trip_counterexample:
  "ParseSeriesKey_of_AppendSeriesKey [] NilSlice (replicate 16384 \<lparr>Key = NilSlice, Value = NilSlice\<rparr>)
     = Inr ([], []) \<and>
   map (tag_bytes []) (replicate 16384 \<lparr>Key = NilSlice, Value = NilSlice\<rparr>) \<noteq> []"
proof -
  let ?ts = "replicate 16384 \<lparr>Key = NilSlice, Value = NilSlice\<rparr>"
  have vi: "valid_input [] NilSlice ?ts"
    by (simp add: valid_input_def valid_tag_def list_all_length)
  have sz: "SeriesKeySize NilSlice ?ts = 65542"
    by (simp add: SeriesKeySize_eq tags_len_replicate)
  have v1: "unat (of_nat (SeriesKeyOffsetsSize (length ?ts)) :: uint16) = 2"
    by (simp add: SeriesKeyOffsetsSize_def)
  have v2: "unat (of_nat (len NilSlice) :: uint16) = 0"
    by simp
  have b: "bytes_of ([] @ [key_layout [] NilSlice ?ts]) (Slice (length ([] :: heap)) 0 65542 65542) =
      be16 (of_nat (SeriesKeyOffsetsSize (length ?ts))) @ be16 (of_nat (len NilSlice)) @
      (layout_table ?ts @ be16 (of_nat (SeriesKeyBytesSize NilSlice ?ts)) @ bytes_of [] NilSlice @
       layout_payload [] ?ts)"
    using bytes_key_nil [OF vi] by (simp only: sz key_layout_def append_assoc)
  have v: "valid ([] @ [key_layout [] NilSlice ?ts]) (Slice (length ([] :: heap)) 0 65542 65542)"
    using valid_key_nil [OF vi] by (simp only: sz)
  have p: "ParseSeriesKey ([] @ [key_layout [] NilSlice ?ts]) (Slice (length ([] :: heap)) 0 65542 65542) =
      Inr (Slice (length ([] :: heap)) (0 + (2 + 4)) 0 (65542 - (2 + 4)), [])"
    using ParseSeriesKey_no_tags [OF v b] by (simp only: v1 v2)
  have "ParseSeriesKey_of_AppendSeriesKey [] NilSlice ?ts = Inr ([], [])"
    unfolding ParseSeriesKey_of_AppendSeriesKey_def
    by (simp only: AppendSeriesKey_nil [OF vi] sz p sum.case prod.case) simp
  moreover have "map (tag_bytes []) ?ts \<noteq> []"
    by (simp only: map_replicate) simp
  ultimately show ?thesis by simp
qed

theorem C1_round_trip_witness:
  "valid_input
     [[0x63, 0x70, 0x75, 0x2C, 0x68, 0x6F, 0x73, 0x74, 0x3D, 0x68, 0x6F, 0x73, 0x74, 0x31, 0x2C,
       0x72, 0x65, 0x67, 0x69, 0x6F, 0x6E, 0x3D, 0x75, 0x73, 0x2D, 0x77, 0x65, 0x73, 0x74]]
     (Slice 0 0 3 29)
     [\<lparr>Key = Slice 0 4 4 25, Value = Slice 0 9 5 20\<rparr>,
      \<lparr>Key = Slice 0 15 6 14, Value = Slice 0 22 7 7\<rparr>] \<and>
   ParseSeriesKey_of_AppendSeriesKey
     [[0x63, 0x70, 0x75, 0x2C, 0x68, 0x6F, 0x73, 0x74, 0x3D, 0x68, 0x6F, 0x73, 0x74, 0x31, 0x2C,
       0x72, 0x65, 0x67, 0x69, 0x6F, 0x6E, 0x3D, 0x75, 0x73, 0x2D, 0x77, 0x65, 0x73, 0x74]]
     (Slice 0 0 3 29)
     [\<lparr>Key = Slice 0 4 4 25, Value = Slice 0 9 5 20\<rparr>,
      \<lparr>Key = Slice 0 15 6 14, Value = Slice 0 22 7 7\<rparr>] =
   Inr ([0x63, 0x70, 0x75],
        [([0x68, 0x6F, 0x73, 0x74], [0x68, 0x6F, 0x73, 0x74, 0x31]),
         ([0x72, 0x65, 0x67, 0x69, 0x6F, 0x6E], [0x75, 0x73, 0x2D, 0x77, 0x65, 0x73, 0x74])])"
  using C1_round_trip [of
     "[[0x63, 0x70, 0x75, 0x2C, 0x68, 0x6F, 0x73, 0x74, 0x3D, 0x68, 0x6F, 0x73, 0x74, 0x31, 0x2C,
       0x72, 0x65, 0x67, 0x69, 0x6F, 0x6E, 0x3D, 0x75, 0x73, 0x2D, 0x77, 0x65, 0x73, 0x74]]"
     "Slice 0 0 3 29"
     "[\<lparr>Key = Slice 0 4 4 25, Value = Slice 0 9 5 20\<rparr>,
      \<lparr>Key = Slice 0 15 6 14, Value = Slice 0 22 7 7\<rparr>]"]
  by (simp add: valid_input_def valid_tag_def small_tag_def tag_bytes_def)

section \<open>Size of a key and its length fields\<close>

lemma rd16_table:
  "j < length tags \<Longrightarrow> length X = p \<Longrightarrow>
   rd16 (X @ layout_table tags @ R) (p + 4 * j) = len (Key (tags ! j)) mod 65536 \<and>
   rd16 (X @ layout_table tags @ R) (p + 4 * j + 2) = len (Value (tags ! j)) mod 65536"
proof (induction tags arbitrary: X p j)
  case Nil
  then show ?case by simp
next
  case (Cons t ts)
  let ?ek = "be16 (of_nat (len (Key t)))" and ?ev = "be16 (of_nat (len (Value t)))"
  show ?case
  proof (cases j)
    case 0
    have "rd16 (X @ ?ek @ (?ev @ layout_table ts @ R)) p = unat (of_nat (len (Key t)) :: uint16)"
      using Cons.prems(2) by (rule rd16_be16)
    moreover have "rd16 ((X @ ?ek) @ ?ev @ (layout_table ts @ R)) (p + 2) =
        unat (of_nat (len (Value t)) :: uint16)"
      using Cons.prems(2) by (intro rd16_be16) simp
    ultimately show ?thesis using 0 by (simp add: unat_of_nat16)
  next
    case (Suc j')
    then have "j' < length ts" using Cons.prems(1) by simp
    from Cons.IH [OF this, of "X @ ?ek @ ?ev" "p + 4"] Cons.prems(2)
    show ?thesis using Suc by (simp add: ac_simps)
  qed
qed

text \<open>
  C3 (size exactness). For every name and tag set, held in valid slices, the key that
  \<^verbatim>\<open>AppendSeriesKey(nil, name, tags)\<close> returns has exactly \<^verbatim>\<open>SeriesKeySize(name, tags)\<close>
  bytes, and that size is \<^verbatim>\<open>(2 + 4*len(tags))\<close> plus the length of the name and of all
  tag keys and values, plus 4.
\<close>

theorem C3_size_exact:
  assumes "valid_input h name tags"
  shows "(\<exists>key h'. AppendSeriesKey h NilSlice name tags = Inr (key, h') \<and>
            len key = SeriesKeySize name tags \<and>
            length (bytes_of h' key) = SeriesKeySize name tags) \<and>
         SeriesKeySize name tags =
           (2 + 4 * length tags) + (len name + (\<Sum>t\<leftarrow>tags. len (Key t) + len (Value t))) + 4"
proof -
  have "length (bytes_of (h @ [key_layout h name tags])
      (Slice (length h) 0 (SeriesKeySize name tags) (SeriesKeySize name tags))) = SeriesKeySize name tags"
    using assms by (simp only: bytes_key_nil length_key_layout valid_input_def)
  then show ?thesis
    using AppendSeriesKey_nil [OF assms]
    by (simp add: SeriesKeySize_eq tags_len_def del: bytes_of.simps)
qed

theorem C3_size_exact_witness:
  "valid_input [[0x61, 0x62, 0x63]] (Slice 0 0 1 3) [\<lparr>Key = Slice 0 1 1 2, Value = Slice 0 2 1 1\<rparr>] \<and>
   (\<exists>key h'. AppendSeriesKey [[0x61, 0x62, 0x63]] NilSlice (Slice 0 0 1 3)
                [\<lparr>Key = Slice 0 1 1 2, Value = Slice 0 2 1 1\<rparr>] = Inr (key, h') \<and>
      len key = 13 \<and> length (bytes_of h' key) = 13) \<and>
   SeriesKeySize (Slice 0 0 1 3) [\<lparr>Key = Slice 0 1 1 2, Value = Slice 0 2 1 1\<rparr>] = 13"
  using C3_size_exact [of "[[0x61, 0x62, 0x63]]" "Slice 0 0 1 3"
      "[\<lparr>Key = Slice 0 1 1 2, Value = Slice 0 2 1 1\<rparr>]"]
  by (simp add: valid_input_def valid_tag_def SeriesKeySize_def SeriesKeyOffsetsSize_def
        SeriesKeyBytesSize_def)

text \<open>
  C4, as the code has it. \<^verbatim>\<open>AppendSeriesKey\<close> has no error result and checks no size:
  for every name and tag set, also one in which the name, a tag key or a tag value is
  longer than 65535 bytes, it returns a key of \<^verbatim>\<open>SeriesKeySize(name, tags)\<close> bytes in
  which the 16-bit length field of the name and of every tag key and value holds the
  field's length modulo 65536. So a field of exactly 65535 bytes is encoded with its
  length, and a longer one with a wrapped length.
\<close>

theorem C4_no_size_limit:
  assumes "valid_input h name tags"
  shows "\<exists>key h'. AppendSeriesKey h NilSlice name tags = Inr (key, h') \<and>
           len key = SeriesKeySize name tags \<and>
           GetUint16 h' key 2 = Inr (len name mod 65536) \<and>
           (\<forall>i<length tags.
              GetUint16 h' key (4 + 4 * i) = Inr (len (Key (tags ! i)) mod 65536) \<and>
              GetUint16 h' key (4 + 4 * i + 2) = Inr (len (Value (tags ! i)) mod 65536))"
proof -
  let ?sz = "SeriesKeySize name tags"
  let ?key = "Slice (length h) 0 ?sz ?sz"
  let ?h' = "h @ [key_layout h name tags]"
  let ?e1 = "be16 (of_nat (SeriesKeyOffsetsSize (length tags)))" and ?e2 = "be16 (of_nat (len name))"
  let ?R = "be16 (of_nat (SeriesKeyBytesSize name tags)) @ bytes_of h name @ layout_payload h tags"
  have v: "valid ?h' ?key" using assms by (rule valid_key_nil)
  have B: "bytes_of ?h' ?key = (?e1 @ ?e2) @ layout_table tags @ ?R"
    using bytes_key_nil [OF assms] unfolding key_layout_def by (simp del: bytes_of.simps)
  have sz: "?sz = 6 + 4 * length tags + len name + tags_len tags"
    by (rule SeriesKeySize_eq)
  have "rd16 (bytes_of ?h' ?key) 2 = len name mod 65536"
    unfolding B using rd16_be16 [where X = ?e1 and p = 2 and v = "of_nat (len name)"]
    by (simp add: unat_of_nat16)
  then have n: "GetUint16 ?h' ?key 2 = Inr (len name mod 65536)"
    using v sz by (subst GetUint16_rd16) simp_all
  have t: "GetUint16 ?h' ?key (4 + 4 * i) = Inr (len (Key (tags ! i)) mod 65536) \<and>
      GetUint16 ?h' ?key (4 + 4 * i + 2) = Inr (len (Value (tags ! i)) mod 65536)"
    if "i < length tags" for i
  proof -
    have "rd16 (bytes_of ?h' ?key) (4 + 4 * i) = len (Key (tags ! i)) mod 65536 \<and>
        rd16 (bytes_of ?h' ?key) (4 + 4 * i + 2) = len (Value (tags ! i)) mod 65536"
      unfolding B using that by (intro rd16_table) simp_all
    moreover have "4 + 4 * i + 2 + 2 \<le> len ?key"
      using that sz by simp
    ultimately show ?thesis
      using v by (subst (1 2) GetUint16_rd16) simp_all
  qed
  show ?thesis
    using AppendSeriesKey_nil [OF assms] n t by simp
qed

text \<open>
  C4 as stated fails: a name of 65536 bytes is not rejected. The call returns a key
  whose name length field and payload size field are both 0, followed by the 65536
  bytes of the name.
\<close>

theorem C4_no_size_limit_counterexample:
  "AppendSeriesKey [replicate 65536 0] NilSlice (Slice 0 0 65536 65536) [] =
     Inr (Slice 1 0 65542 65542, [replicate 65536 0, [0, 2, 0, 0, 0, 0] @ replicate 65536 0])"
proof -
  have vi: "valid_input [replicate 65536 0] (Slice 0 0 65536 65536) []"
    by (simp add: valid_input_def)
  have sz: "SeriesKeySize (Slice 0 0 65536 65536) [] = 65542"
    by (simp add: SeriesKeySize_eq)
  have k: "key_layout [replicate 65536 0] (Slice 0 0 65536 65536) [] =
      [0, 2, 0, 0, 0, 0] @ replicate 65536 0"
    by (simp add: key_layout_def be16_def SeriesKeyOffsetsSize_def SeriesKeyBytesSize_eq)
  show ?thesis
    using AppendSeriesKey_nil [OF vi] by (simp only: sz k) simp
qed

theorem C4_no_size_limit_witness:
  "valid_input [[0x61, 0x62, 0x63]] (Slice 0 0 1 3) [\<lparr>Key = Slice 0 1 1 2, Value = Slice 0 2 1 1\<rparr>] \<and>
   (\<exists>key h'. AppendSeriesKey [[0x61, 0x62, 0x63]] NilSlice (Slice 0 0 1 3)
                [\<lparr>Key = Slice 0 1 1 2, Value = Slice 0 2 1 1\<rparr>] = Inr (key, h') \<and>
      len key = 13 \<and> GetUint16 h' key 2 = Inr 1 \<and> GetUint16 h' key 4 = Inr 1 \<and>
      GetUint16 h' key 6 = Inr 1)"
  using C4_no_size_limit [of "[[0x61, 0x62, 0x63]]" "Slice 0 0 1 3"
      "[\<lparr>Key = Slice 0 1 1 2, Value = Slice 0 2 1 1\<rparr>]"]
  by (simp add: valid_input_def valid_tag_def SeriesKeySize_def SeriesKeyOffsetsSize_def
        SeriesKeyBytesSize_def)

section \<open>Appending to a destination\<close>













section \<open>The comparator\<close>

text \<open>
  \<^verbatim>\<open>bytes.Compare\<close> is the lexicographic comparison of the specification; it gives 0
  on equal strings, changes sign when its arguments are exchanged, and is transitive.
\<close>

lemma bytes_Compare_lexicographic: "bytes_Compare x y = lexicographic_compare x y"
  by (induction x y rule: bytes_Compare.induct) (auto simp: lexicographic_compare_def)

lemma bytes_Compare_refl: "bytes_Compare x x = 0"
  by (induction x) auto

lemma bytes_Compare_flip: "bytes_Compare y x = - bytes_Compare x y"
  by (induction x y rule: bytes_Compare.induct) auto

lemma bytes_Compare_trans:
  "bytes_Compare x y \<le> 0 \<Longrightarrow> bytes_Compare y z \<le> 0 \<Longrightarrow> bytes_Compare x z \<le> 0"
proof (induction x y arbitrary: z rule: bytes_Compare.induct)
  case 1
  then show ?case by simp
next
  case (2 y ys)
  then show ?case by (cases z) auto
next
  case (3 x xs)
  then show ?case by simp
next
  case (4 x xs y ys)
  then show ?case by (cases z) (auto split: if_splits)
qed

lemma holds_key_layout:
  "holds_key h k h0 name tags \<longleftrightarrow>
   valid h k \<and> valid_input h0 name tags \<and> bytes_of h k = key_layout h0 name tags"
proof (cases "valid_input h0 name tags")
  case True
  show ?thesis
    unfolding holds_key_def
    by (simp only: AppendSeriesKey_nil [OF True] bytes_key_nil [OF True] sum.case prod.case)
next
  case False
  then show ?thesis by (simp add: holds_key_def)
qed

lemma header_reads:
  assumes v: "valid h k" and i: "in_bounds (bytes_of h k)" and n: "2 \<le> len k"
  shows "GetUint16 h k 0 = Inr (rd16 (bytes_of h k) 0)"
    and "GetUint16 h k (rd16 (bytes_of h k) 0 + 2) = Inr (rd16 (bytes_of h k) (rd16 (bytes_of h k) 0 + 2))"
    and "\<exists>p. reslice k (rd16 (bytes_of h k) 0 + 2 + 2)
            (rd16 (bytes_of h k) 0 + 2 + 2 + rd16 (bytes_of h k) (rd16 (bytes_of h k) 0 + 2)) = Inr p \<and>
           bytes_of h p = payload_range (bytes_of h k)"
proof -
  let ?A = "bytes_of h k"
  let ?o = "rd16 ?A 0"
  let ?l = "rd16 ?A (?o + 2)"
  obtain a' off m c where Slice: "k = Slice a' off m c"
    using n by (cases k) simp_all
  have len: "length ?A = m" "m \<le> c"
    using length_bytes_of [OF v] v Slice by simp_all
  have le: "?o + 2 + 2 + ?l \<le> m"
    using i len by (simp add: in_bounds_def)
  show "GetUint16 h k 0 = Inr ?o"
    using v n by (intro GetUint16_rd16) simp_all
  show "GetUint16 h k (?o + 2) = Inr ?l"
    using v le Slice by (intro GetUint16_rd16) simp_all
  have r: "reslice k (?o + 2 + 2) (?o + 2 + 2 + ?l) = Inr (Slice a' (off + (?o + 2 + 2)) ?l (c - (?o + 2 + 2)))"
    using le len unfolding Slice by (simp del: bytes_of.simps)
  have "bytes_of h (Slice a' (off + (?o + 2 + 2)) ?l (c - (?o + 2 + 2))) =
      take ?l (drop (?o + 2 + 2) (bytes_of h (Slice a' off m c)))"
    using le unfolding Slice by (intro bytes_of_sub) simp
  then have "bytes_of h (Slice a' (off + (?o + 2 + 2)) ?l (c - (?o + 2 + 2))) = payload_range ?A"
    unfolding Slice payload_range_def .
  with r show "\<exists>p. reslice k (?o + 2 + 2) (?o + 2 + 2 + ?l) = Inr p \<and> bytes_of h p = payload_range ?A"
    by simp
qed

lemma CompareSeriesKeys_bytes:
  assumes va: "valid h a" and vb: "valid h b"
    and ia: "in_bounds (bytes_of h a)" and ib: "in_bounds (bytes_of h b)"
    and na: "2 \<le> len a" and nb: "2 \<le> len b"
  shows "CompareSeriesKeys h a b =
    Inr (bytes_Compare (payload_range (bytes_of h a)) (payload_range (bytes_of h b)))"
proof -
  note a = header_reads [OF va ia na] and b = header_reads [OF vb ib nb]
  from a(3) obtain pa where pa:
    "reslice a (rd16 (bytes_of h a) 0 + 2 + 2)
            (rd16 (bytes_of h a) 0 + 2 + 2 + rd16 (bytes_of h a) (rd16 (bytes_of h a) 0 + 2)) = Inr pa"
    "bytes_of h pa = payload_range (bytes_of h a)"
    by blast
  from b(3) obtain pb where pb:
    "reslice b (rd16 (bytes_of h b) 0 + 2 + 2)
            (rd16 (bytes_of h b) 0 + 2 + 2 + rd16 (bytes_of h b) (rd16 (bytes_of h b) 0 + 2)) = Inr pb"
    "bytes_of h pb = payload_range (bytes_of h b)"
    by blast
  have "len a \<noteq> 0" "len b \<noteq> 0" using na nb by simp_all
  then show ?thesis
    unfolding CompareSeriesKeys_def
    by (simp only: a(1,2) b(1,2) pa pb sum.case if_False simp_thms)
qed

lemma ofs_wrap: "(2 + 4 * L) mod 65536 = 2 + 4 * (L mod 16384)" for L :: nat
proof -
  have "4 * (L mod 16384) = 4 * L mod 65536"
    by (simp add: mult_mod_right)
  moreover have "2 + 4 * (L mod 16384) < 65536"
    using mod_less_divisor [of 16384 L] by linarith
  ultimately show ?thesis
    by (metis mod_add_right_eq mod_less)
qed

lemma len_Key_le_tags_len: "j < length tags \<Longrightarrow> len (Key (tags ! j)) \<le> tags_len tags"
proof (induction tags arbitrary: j)
  case Nil
  then show ?case by simp
next
  case (Cons t ts)
  show ?case
  proof (cases j)
    case 0
    then show ?thesis by simp
  next
    case (Suc j')
    then have "len (Key (ts ! j')) \<le> tags_len ts"
      using Cons by simp
    then show ?thesis using Suc by simp
  qed
qed

text \<open>
  On every encoded key the reads of the comparator stay inside the key. With at most
  16383 tags the value read at \<open>ofs + 2\<close> is the payload size modulo 65536; with more
  tags the first header has wrapped and the value read is the length field of a tag
  key, which is at most the size of the payload as well.
\<close>

lemma key_layout_in_bounds:
  assumes vi: "valid_input h0 name tags"
  shows "in_bounds (key_layout h0 name tags)"
proof -
  let ?A = "key_layout h0 name tags" and ?L = "length tags"
  let ?e1 = "be16 (of_nat (SeriesKeyOffsetsSize ?L))" and ?e2 = "be16 (of_nat (len name))"
  let ?e3 = "be16 (of_nat (SeriesKeyBytesSize name tags))"
  let ?R = "bytes_of h0 name @ layout_payload h0 tags"
  have vn: "valid h0 name" and vts: "list_all (valid_tag h0) tags"
    using vi by (simp_all add: valid_input_def)
  have lenA: "length ?A = 6 + 4 * ?L + len name + tags_len tags"
    using length_key_layout [OF vn vts] by (simp add: SeriesKeySize_eq)
  have A: "?A = ?e1 @ ?e2 @ layout_table tags @ ?e3 @ ?R"
    by (simp add: key_layout_def)
  have ofs': "SeriesKeyOffsetsSize ?L = 2 + 4 * ?L"
    by (simp add: SeriesKeyOffsetsSize_def)
  have "rd16 ?A 0 = unat (of_nat (SeriesKeyOffsetsSize ?L) :: uint16)"
    unfolding A using rd16_be16 [where X = "[]" and p = 0] by simp
  then have o: "rd16 ?A 0 = 2 + 4 * (?L mod 16384)"
    by (simp only: unat_of_nat16 ofs' ofs_wrap)
  show ?thesis
  proof (cases "?L < 16384")
    case True
    then have o': "rd16 ?A 0 + 2 = 4 + 4 * ?L"
      using o by simp
    have "rd16 ((?e1 @ ?e2 @ layout_table tags) @ ?e3 @ ?R) (4 + 4 * ?L) =
        unat (of_nat (SeriesKeyBytesSize name tags) :: uint16)"
      by (intro rd16_be16) simp
    then have "rd16 ?A (rd16 ?A 0 + 2) = (len name + tags_len tags) mod 65536"
      unfolding o' by (simp only: A append_assoc unat_of_nat16 SeriesKeyBytesSize_eq)
    moreover have "(len name + tags_len tags) mod 65536 \<le> len name + tags_len tags"
      by simp
    ultimately show ?thesis
      unfolding in_bounds_def using o' lenA by linarith
  next
    case False
    let ?j = "?L mod 16384"
    have j: "?j < ?L"
      using False mod_less_divisor [of 16384 ?L] by linarith
    have o': "rd16 ?A 0 + 2 = 4 + 4 * ?j"
      using o by simp
    have "rd16 ((?e1 @ ?e2) @ layout_table tags @ ?e3 @ ?R) (4 + 4 * ?j) =
        len (Key (tags ! ?j)) mod 65536"
      using rd16_table [OF j, of "?e1 @ ?e2" 4] by simp
    then have "rd16 ?A (rd16 ?A 0 + 2) = len (Key (tags ! ?j)) mod 65536"
      unfolding o' by (simp only: A append_assoc)
    moreover have "len (Key (tags ! ?j)) mod 65536 \<le> tags_len tags"
      using len_Key_le_tags_len [OF j] mod_less_eq_dividend [of "len (Key (tags ! ?j))" 65536]
      by linarith
    ultimately show ?thesis
      unfolding in_bounds_def using o' lenA j by linarith
  qed
qed

lemma holds_key_bounds:
  assumes "holds_key h k h0 name tags"
  shows "valid h k" and "in_bounds (bytes_of h k)" and "2 \<le> len k"
    and "length (bytes_of h k) = len k"
proof -
  from assms have v: "valid h k" and vi: "valid_input h0 name tags"
    and b: "bytes_of h k = key_layout h0 name tags"
    by (simp_all add: holds_key_layout)
  show "valid h k" by (rule v)
  have "length (bytes_of h k) = SeriesKeySize name tags"
    using vi unfolding b by (simp add: length_key_layout valid_input_def)
  then show "2 \<le> len k"
    using length_bytes_of [OF v] by (simp add: SeriesKeySize_eq)
  show "in_bounds (bytes_of h k)"
    using key_layout_in_bounds [OF vi] b by simp
  show "length (bytes_of h k) = len k"
    using v by (rule length_bytes_of)
qed

lemma holds_key_compare:
  assumes "holds_key h a ha na ta" and "holds_key h b hb nb tb"
  shows "CompareSeriesKeys h a b =
    Inr (bytes_Compare (payload_range (bytes_of h a)) (payload_range (bytes_of h b)))"
  using holds_key_bounds [OF assms(1)] holds_key_bounds [OF assms(2)]
  by (intro CompareSeriesKeys_bytes)

lemma Compare_encoded_aaa:
  "Compare_encoded
     [[0x61, 0x61, 0x61, 0x2C, 0x74, 0x61, 0x61, 0x61, 0x3D, 0x76, 0x61, 0x61, 0x61],
      [0x61, 0x61, 0x61, 0x2C, 0x74, 0x62, 0x62, 0x62, 0x3D, 0x76, 0x61, 0x61, 0x61]]
     (Slice 0 0 3 13) [\<lparr>Key = Slice 0 4 4 9, Value = Slice 0 9 4 4\<rparr>]
     (Slice 1 0 3 13) [\<lparr>Key = Slice 1 4 4 9, Value = Slice 1 9 4 4\<rparr>] = Inr (- 1)"
proof -
  let ?h = "[[0x61, 0x61, 0x61, 0x2C, 0x74, 0x61, 0x61, 0x61, 0x3D, 0x76, 0x61, 0x61, 0x61],
      [0x61, 0x61, 0x61, 0x2C, 0x74, 0x62, 0x62, 0x62, 0x3D, 0x76, 0x61, 0x61, 0x61 :: byte]]"
  let ?ka = "[0, 6, 0, 3, 0, 4, 0, 4, 0, 11, 0x61, 0x61, 0x61, 0x74, 0x61, 0x61, 0x61,
      0x76, 0x61, 0x61, 0x61 :: byte]"
  let ?kb = "[0, 6, 0, 3, 0, 4, 0, 4, 0, 11, 0x61, 0x61, 0x61, 0x74, 0x62, 0x62, 0x62,
      0x76, 0x61, 0x61, 0x61 :: byte]"
  have va: "valid_input ?h (Slice 0 0 3 13) [\<lparr>Key = Slice 0 4 4 9, Value = Slice 0 9 4 4\<rparr>]"
    by (simp add: valid_input_def valid_tag_def)
  have a: "AppendSeriesKey ?h NilSlice (Slice 0 0 3 13) [\<lparr>Key = Slice 0 4 4 9, Value = Slice 0 9 4 4\<rparr>]
      = Inr (Slice 2 0 21 21, ?h @ [?ka])"
    using AppendSeriesKey_nil [OF va]
    by (simp add: SeriesKeySize_eq key_layout_def be16_def SeriesKeyOffsetsSize_def
          SeriesKeyBytesSize_eq)
  have vb: "valid_input (?h @ [?ka]) (Slice 1 0 3 13) [\<lparr>Key = Slice 1 4 4 9, Value = Slice 1 9 4 4\<rparr>]"
    by (simp add: valid_input_def valid_tag_def)
  have b: "AppendSeriesKey (?h @ [?ka]) NilSlice (Slice 1 0 3 13)
      [\<lparr>Key = Slice 1 4 4 9, Value = Slice 1 9 4 4\<rparr>] = Inr (Slice 3 0 21 21, ?h @ [?ka, ?kb])"
    using AppendSeriesKey_nil [OF vb]
    by (simp add: SeriesKeySize_eq key_layout_def be16_def SeriesKeyOffsetsSize_def
          SeriesKeyBytesSize_eq)
  have c: "CompareSeriesKeys (?h @ [?ka, ?kb]) (Slice 2 0 21 21) (Slice 3 0 21 21) = Inr (- 1)"
    by (simp add: CompareSeriesKeys_def GetUint16_def)
  show ?thesis
    unfolding Compare_encoded_def by (simp only: a b c sum.case prod.case)
qed

lemma payload_range_eq: "payload_range A = take (rd16 A (rd16 A 0 + 2)) (drop (rd16 A 0 + 4) A)"
proof -
  have "rd16 A 0 + 2 + 2 = rd16 A 0 + 4" by simp
  then show ?thesis unfolding payload_range_def by (simp only:)
qed

text \<open>
  C2. For two slices that hold encoded keys, \<^verbatim>\<open>CompareSeriesKeys\<close> reads from each key
  its first header \<open>ofs\<close> and the 16-bit size at \<open>ofs + 2\<close>; the sub-range from
  \<open>ofs + 4\<close> of that size lies inside the key; and the result is the standard
  lexicographic comparison (a proper prefix is less, the result is -1, 0 or 1) of the
  sub-range of the first key against the sub-range of the second. No name or tag field
  is read. In particular, comparing the encoding of name \<^verbatim>\<open>aaa\<close> with tag
  \<^verbatim>\<open>taaa=vaaa\<close> against that of name \<^verbatim>\<open>aaa\<close> with tag \<^verbatim>\<open>tbbb=vaaa\<close> gives -1.
\<close>

theorem C2_compare_payload_ranges:
  assumes "holds_key h a ha na ta" and "holds_key h b hb nb tb"
  shows "(\<exists>ofsA sizeA ofsB sizeB.
            GetUint16 h a 0 = Inr ofsA \<and> GetUint16 h a (ofsA + 2) = Inr sizeA \<and>
            ofsA + 4 + sizeA \<le> len a \<and>
            GetUint16 h b 0 = Inr ofsB \<and> GetUint16 h b (ofsB + 2) = Inr sizeB \<and>
            ofsB + 4 + sizeB \<le> len b \<and>
            CompareSeriesKeys h a b =
              Inr (lexicographic_compare (take sizeA (drop (ofsA + 4) (bytes_of h a)))
                     (take sizeB (drop (ofsB + 4) (bytes_of h b))))) \<and>
         Compare_encoded
           [[0x61, 0x61, 0x61, 0x2C, 0x74, 0x61, 0x61, 0x61, 0x3D, 0x76, 0x61, 0x61, 0x61],
            [0x61, 0x61, 0x61, 0x2C, 0x74, 0x62, 0x62, 0x62, 0x3D, 0x76, 0x61, 0x61, 0x61]]
           (Slice 0 0 3 13) [\<lparr>Key = Slice 0 4 4 9, Value = Slice 0 9 4 4\<rparr>]
           (Slice 1 0 3 13) [\<lparr>Key = Slice 1 4 4 9, Value = Slice 1 9 4 4\<rparr>] = Inr (- 1)"
proof -
  note A = holds_key_bounds [OF assms(1)] and B = holds_key_bounds [OF assms(2)]
  note ra = header_reads [OF A(1,2,3)] and rb = header_reads [OF B(1,2,3)]
  let ?A = "bytes_of h a" and ?B = "bytes_of h b"
  have la: "rd16 ?A 0 + 4 + rd16 ?A (rd16 ?A 0 + 2) \<le> len a"
    using A(2,4) by (simp add: in_bounds_def)
  have lb: "rd16 ?B 0 + 4 + rd16 ?B (rd16 ?B 0 + 2) \<le> len b"
    using B(2,4) by (simp add: in_bounds_def)
  have "CompareSeriesKeys h a b =
      Inr (lexicographic_compare (take (rd16 ?A (rd16 ?A 0 + 2)) (drop (rd16 ?A 0 + 4) ?A))
             (take (rd16 ?B (rd16 ?B 0 + 2)) (drop (rd16 ?B 0 + 4) ?B)))"
    by (simp only: holds_key_compare [OF assms] bytes_Compare_lexicographic payload_range_eq)
  with ra(1,2) rb(1,2) la lb show ?thesis
    using Compare_encoded_aaa by blast
qed

theorem C2_compare_payload_ranges_witness:
  "holds_key
     [[0x61, 0x61, 0x61, 0x2C, 0x74, 0x61, 0x61, 0x61, 0x3D, 0x76, 0x61, 0x61, 0x61],
      [0x61, 0x61, 0x61, 0x2C, 0x74, 0x62, 0x62, 0x62, 0x3D, 0x76, 0x61, 0x61, 0x61],
      [0, 6, 0, 3, 0, 4, 0, 4, 0, 11, 0x61, 0x61, 0x61, 0x74, 0x61, 0x61, 0x61, 0x76, 0x61, 0x61, 0x61],
      [0, 6, 0, 3, 0, 4, 0, 4, 0, 11, 0x61, 0x61, 0x61, 0x74, 0x62, 0x62, 0x62, 0x76, 0x61, 0x61, 0x61]]
     (Slice 2 0 21 21)
     [[0x61, 0x61, 0x61, 0x2C, 0x74, 0x61, 0x61, 0x61, 0x3D, 0x76, 0x61, 0x61, 0x61]]
     (Slice 0 0 3 13) [\<lparr>Key = Slice 0 4 4 9, Value = Slice 0 9 4 4\<rparr>] \<and>
   holds_key
     [[0x61, 0x61, 0x61, 0x2C, 0x74, 0x61, 0x61, 0x61, 0x3D, 0x76, 0x61, 0x61, 0x61],
      [0x61, 0x61, 0x61, 0x2C, 0x74, 0x62, 0x62, 0x62, 0x3D, 0x76, 0x61, 0x61, 0x61],
      [0, 6, 0, 3, 0, 4, 0, 4, 0, 11, 0x61, 0x61, 0x61, 0x74, 0x61, 0x61, 0x61, 0x76, 0x61, 0x61, 0x61],
      [0, 6, 0, 3, 0, 4, 0, 4, 0, 11, 0x61, 0x61, 0x61, 0x74, 0x62, 0x62, 0x62, 0x76, 0x61, 0x61, 0x61]]
     (Slice 3 0 21 21)
     [[0x61, 0x61, 0x61, 0x2C, 0x74, 0x62, 0x62, 0x62, 0x3D, 0x76, 0x61, 0x61, 0x61]]
     (Slice 0 0 3 13) [\<lparr>Key = Slice 0 4 4 9, Value = Slice 0 9 4 4\<rparr>] \<and>
   CompareSeriesKeys
     [[0x61, 0x61, 0x61, 0x2C, 0x74, 0x61, 0x61, 0x61, 0x3D, 0x76, 0x61, 0x61, 0x61],
      [0x61, 0x61, 0x61, 0x2C, 0x74, 0x62, 0x62, 0x62, 0x3D, 0x76, 0x61, 0x61, 0x61],
      [0, 6, 0, 3, 0, 4, 0, 4, 0, 11, 0x61, 0x61, 0x61, 0x74, 0x61, 0x61, 0x61, 0x76, 0x61, 0x61, 0x61],
      [0, 6, 0, 3, 0, 4, 0, 4, 0, 11, 0x61, 0x61, 0x61, 0x74, 0x62, 0x62, 0x62, 0x76, 0x61, 0x61, 0x61]]
     (Slice 2 0 21 21) (Slice 3 0 21 21) =
   Inr (lexicographic_compare
          [0x61, 0x61, 0x61, 0x74, 0x61, 0x61, 0x61, 0x76, 0x61, 0x61, 0x61]
          [0x61, 0x61, 0x61, 0x74, 0x62, 0x62, 0x62, 0x76, 0x61, 0x61, 0x61])"
proof -
  let ?sa = "[0x61, 0x61, 0x61, 0x2C, 0x74, 0x61, 0x61, 0x61, 0x3D, 0x76, 0x61, 0x61, 0x61 :: byte]"
  let ?sb = "[0x61, 0x61, 0x61, 0x2C, 0x74, 0x62, 0x62, 0x62, 0x3D, 0x76, 0x61, 0x61, 0x61 :: byte]"
  let ?ka = "[0, 6, 0, 3, 0, 4, 0, 4, 0, 11, 0x61, 0x61, 0x61, 0x74, 0x61, 0x61, 0x61,
      0x76, 0x61, 0x61, 0x61 :: byte]"
  let ?kb = "[0, 6, 0, 3, 0, 4, 0, 4, 0, 11, 0x61, 0x61, 0x61, 0x74, 0x62, 0x62, 0x62,
      0x76, 0x61, 0x61, 0x61 :: byte]"
  let ?ts = "[\<lparr>Key = Slice 0 4 4 9, Value = Slice 0 9 4 4\<rparr>]"
  have a: "holds_key [?sa, ?sb, ?ka, ?kb] (Slice 2 0 21 21) [?sa] (Slice 0 0 3 13) ?ts"
    by (simp add: holds_key_layout valid_input_def valid_tag_def key_layout_def be16_def
          SeriesKeyOffsetsSize_def SeriesKeyBytesSize_eq)
  have b: "holds_key [?sa, ?sb, ?ka, ?kb] (Slice 3 0 21 21) [?sb] (Slice 0 0 3 13) ?ts"
    by (simp add: holds_key_layout valid_input_def valid_tag_def key_layout_def be16_def
          SeriesKeyOffsetsSize_def SeriesKeyBytesSize_eq)
  from C2_compare_payload_ranges [OF a b] obtain ofsA sizeA ofsB sizeB where
    r: "GetUint16 [?sa, ?sb, ?ka, ?kb] (Slice 2 0 21 21) 0 = Inr ofsA"
      "GetUint16 [?sa, ?sb, ?ka, ?kb] (Slice 2 0 21 21) (ofsA + 2) = Inr sizeA"
      "GetUint16 [?sa, ?sb, ?ka, ?kb] (Slice 3 0 21 21) 0 = Inr ofsB"
      "GetUint16 [?sa, ?sb, ?ka, ?kb] (Slice 3 0 21 21) (ofsB + 2) = Inr sizeB"
    and c: "CompareSeriesKeys [?sa, ?sb, ?ka, ?kb] (Slice 2 0 21 21) (Slice 3 0 21 21) =
      Inr (lexicographic_compare
             (take sizeA (drop (ofsA + 4) (bytes_of [?sa, ?sb, ?ka, ?kb] (Slice 2 0 21 21))))
             (take sizeB (drop (ofsB + 4) (bytes_of [?sa, ?sb, ?ka, ?kb] (Slice 3 0 21 21)))))"
    by blast
  from r(1) have oa: "ofsA = 6" by (simp add: GetUint16_def)
  from r(3) have ob: "ofsB = 6" by (simp add: GetUint16_def)
  from r(2) have sa: "sizeA = 11" unfolding oa by (simp add: GetUint16_def)
  from r(4) have sb: "sizeB = 11" unfolding ob by (simp add: GetUint16_def)
  from c have "CompareSeriesKeys [?sa, ?sb, ?ka, ?kb] (Slice 2 0 21 21) (Slice 3 0 21 21) =
      Inr (lexicographic_compare
          [0x61, 0x61, 0x61, 0x74, 0x61, 0x61, 0x61, 0x76, 0x61, 0x61, 0x61]
          [0x61, 0x61, 0x61, 0x74, 0x62, 0x62, 0x62, 0x76, 0x61, 0x61, 0x61])"
    unfolding oa ob sa sb by simp
  with a b show ?thesis by (simp only: simp_thms)
qed

lemma bytes_Compare_range: "bytes_Compare x y = - 1 \<or> bytes_Compare x y = 0 \<or> bytes_Compare x y = 1"
  by (induction x y rule: bytes_Compare.induct) auto

lemma key_compare_refl: "key_compare A A = 0"
  by (simp add: key_compare_def bytes_Compare_refl)

lemma key_compare_flip: "key_compare B A = - key_compare A B"
  using bytes_Compare_flip [of "payload_range A" "payload_range B"]
  by (simp add: key_compare_def)

lemma key_compare_range: "key_compare A B = - 1 \<or> key_compare A B = 0 \<or> key_compare A B = 1"
  using bytes_Compare_range [of "payload_range A" "payload_range B"]
  by (simp add: key_compare_def)

lemma key_compare_trans:
  "key_compare A B \<le> 0 \<Longrightarrow> key_compare B C \<le> 0 \<Longrightarrow> key_compare A C \<le> 0"
  using bytes_Compare_trans [of "payload_range A" "payload_range B" "payload_range C"]
  by (simp add: key_compare_def split: if_splits)

lemma CompareSeriesKeys_key_compare:
  assumes va: "valid h a" and vb: "valid h b"
    and ia: "bytes_of h a = [] \<or> in_bounds (bytes_of h a) \<and> 2 \<le> length (bytes_of h a)"
    and ib: "bytes_of h b = [] \<or> in_bounds (bytes_of h b) \<and> 2 \<le> length (bytes_of h b)"
  shows "CompareSeriesKeys h a b = Inr (key_compare (bytes_of h a) (bytes_of h b))"
proof -
  note la = length_bytes_of [OF va] and lb = length_bytes_of [OF vb]
  have ea: "bytes_of h a = [] \<longleftrightarrow> len a = 0" using la by auto
  have eb: "bytes_of h b = [] \<longleftrightarrow> len b = 0" using lb by auto
  show ?thesis
  proof (cases "len a = 0 \<or> len b = 0")
    case True
    then show ?thesis
      by (auto simp add: CompareSeriesKeys_def key_compare_def ea eb simp del: bytes_of.simps)
  next
    case False
    then have "in_bounds (bytes_of h a)" "2 \<le> len a" "in_bounds (bytes_of h b)" "2 \<le> len b"
      using ia ib ea eb la lb by auto
    from CompareSeriesKeys_bytes [OF va vb this(1,3,2,4)] False show ?thesis
      by (simp add: key_compare_def ea eb del: bytes_of.simps)
  qed
qed

lemma key_or_empty_bytes:
  assumes "key_or_empty h k h0 name tags"
  shows "valid h k"
    and "bytes_of h k = [] \<or> in_bounds (bytes_of h k) \<and> 2 \<le> length (bytes_of h k)"
proof -
  from assms show v: "valid h k" by (simp add: key_or_empty_def)
  from assms have "len k = 0 \<or> holds_key h k h0 name tags" by (simp add: key_or_empty_def)
  then show "bytes_of h k = [] \<or> in_bounds (bytes_of h k) \<and> 2 \<le> length (bytes_of h k)"
  proof
    assume "len k = 0"
    then show ?thesis using length_bytes_of [OF v] by simp
  next
    assume "holds_key h k h0 name tags"
    from holds_key_bounds [OF this] show ?thesis by simp
  qed
qed

text \<open>
  C5. On encoded keys, and on the empty key as well, \<^verbatim>\<open>CompareSeriesKeys\<close> always
  returns, and it orders them: a key compares equal to itself; exchanging the arguments
  negates the result, which is -1, 0 or 1; if a is at most b and b is at most c then a
  is at most c; and the result is determined by the bytes of the two keys alone: any two
  valid slices of any store that hold the same bytes compare the same way, so repeated
  calls agree.
\<close>

theorem C5_compare_order_properties:
  assumes "key_or_empty h a ha na ta" and "key_or_empty h b hb nb tb"
    and "key_or_empty h c hc nc tc"
  shows "CompareSeriesKeys h a a = Inr 0 \<and>
         (\<exists>r. CompareSeriesKeys h a b = Inr r \<and> CompareSeriesKeys h b a = Inr (- r) \<and>
              (r = - 1 \<or> r = 0 \<or> r = 1)) \<and>
         (\<exists>x y z. CompareSeriesKeys h a b = Inr x \<and> CompareSeriesKeys h b c = Inr y \<and>
              CompareSeriesKeys h a c = Inr z \<and> (x \<le> 0 \<and> y \<le> 0 \<longrightarrow> z \<le> 0)) \<and>
         (\<forall>h' a' b'. valid h' a' \<and> valid h' b' \<and> bytes_of h' a' = bytes_of h a \<and>
              bytes_of h' b' = bytes_of h b \<longrightarrow>
              CompareSeriesKeys h' a' b' = CompareSeriesKeys h a b)"
proof -
  let ?A = "bytes_of h a" and ?B = "bytes_of h b" and ?C = "bytes_of h c"
  note A = key_or_empty_bytes [OF assms(1)] and B = key_or_empty_bytes [OF assms(2)]
    and C = key_or_empty_bytes [OF assms(3)]
  note aa = CompareSeriesKeys_key_compare [OF A(1) A(1) A(2) A(2)]
    and ab = CompareSeriesKeys_key_compare [OF A(1) B(1) A(2) B(2)]
    and ba = CompareSeriesKeys_key_compare [OF B(1) A(1) B(2) A(2)]
    and bc = CompareSeriesKeys_key_compare [OF B(1) C(1) B(2) C(2)]
    and ac = CompareSeriesKeys_key_compare [OF A(1) C(1) A(2) C(2)]
  have 1: "CompareSeriesKeys h a a = Inr 0"
    using aa by (simp add: key_compare_refl del: bytes_of.simps)
  have 2: "\<exists>r. CompareSeriesKeys h a b = Inr r \<and> CompareSeriesKeys h b a = Inr (- r) \<and>
      (r = - 1 \<or> r = 0 \<or> r = 1)"
    using ab ba key_compare_flip [of ?A ?B] key_compare_range [of ?A ?B]
    by (simp del: bytes_of.simps)
  have 3: "\<exists>x y z. CompareSeriesKeys h a b = Inr x \<and> CompareSeriesKeys h b c = Inr y \<and>
      CompareSeriesKeys h a c = Inr z \<and> (x \<le> 0 \<and> y \<le> 0 \<longrightarrow> z \<le> 0)"
    using ab bc ac key_compare_trans [of ?A ?B ?C] by (simp del: bytes_of.simps)
  have 4: "CompareSeriesKeys h' a' b' = CompareSeriesKeys h a b"
    if "valid h' a'" "valid h' b'" "bytes_of h' a' = bytes_of h a" "bytes_of h' b' = bytes_of h b"
    for h' a' b'
  proof -
    have "CompareSeriesKeys h' a' b' = Inr (key_compare (bytes_of h' a') (bytes_of h' b'))"
      using that A(2) B(2) by (intro CompareSeriesKeys_key_compare) simp_all
    then show ?thesis
      using ab that(3,4) by (simp del: bytes_of.simps)
  qed
  from 1 2 3 4 show ?thesis by blast
qed

theorem C5_compare_order_properties_witness:
  "key_or_empty [[0x61, 0x62], [0, 2, 0, 1, 0, 1, 0x61], [0, 2, 0, 1, 0, 1, 0x62]]
     NilSlice [] NilSlice [] \<and>
   key_or_empty [[0x61, 0x62], [0, 2, 0, 1, 0, 1, 0x61], [0, 2, 0, 1, 0, 1, 0x62]]
     (Slice 1 0 7 7) [[0x61, 0x62]] (Slice 0 0 1 2) [] \<and>
   key_or_empty [[0x61, 0x62], [0, 2, 0, 1, 0, 1, 0x61], [0, 2, 0, 1, 0, 1, 0x62]]
     (Slice 2 0 7 7) [[0x61, 0x62]] (Slice 0 1 1 1) [] \<and>
   CompareSeriesKeys [[0x61, 0x62], [0, 2, 0, 1, 0, 1, 0x61], [0, 2, 0, 1, 0, 1, 0x62]]
     NilSlice NilSlice = Inr 0 \<and>
   CompareSeriesKeys [[0x61, 0x62], [0, 2, 0, 1, 0, 1, 0x61], [0, 2, 0, 1, 0, 1, 0x62]]
     NilSlice (Slice 1 0 7 7) = Inr (- 1) \<and>
   CompareSeriesKeys [[0x61, 0x62], [0, 2, 0, 1, 0, 1, 0x61], [0, 2, 0, 1, 0, 1, 0x62]]
     (Slice 1 0 7 7) NilSlice = Inr 1 \<and>
   CompareSeriesKeys [[0x61, 0x62], [0, 2, 0, 1, 0, 1, 0x61], [0, 2, 0, 1, 0, 1, 0x62]]
     (Slice 1 0 7 7) (Slice 2 0 7 7) = Inr (- 1) \<and>
   CompareSeriesKeys [[0x61, 0x62], [0, 2, 0, 1, 0, 1, 0x61], [0, 2, 0, 1, 0, 1, 0x62]]
     NilSlice (Slice 2 0 7 7) = Inr (- 1)"
proof -
  let ?in = "[0x61, 0x62 :: byte]"
  let ?h = "[?in, [0, 2, 0, 1, 0, 1, 0x61], [0, 2, 0, 1, 0, 1, 0x62]]"
  have a: "key_or_empty ?h NilSlice [] NilSlice []"
    by (simp add: key_or_empty_def)
  have b: "key_or_empty ?h (Slice 1 0 7 7) [?in] (Slice 0 0 1 2) []"
    and c: "key_or_empty ?h (Slice 2 0 7 7) [?in] (Slice 0 1 1 1) []"
    by (simp_all add: key_or_empty_def holds_key_layout valid_input_def key_layout_def be16_def
          SeriesKeyOffsetsSize_def SeriesKeyBytesSize_eq)
  have e: "CompareSeriesKeys ?h NilSlice (Slice 1 0 7 7) = Inr (- 1)"
      "CompareSeriesKeys ?h (Slice 1 0 7 7) (Slice 2 0 7 7) = Inr (- 1)"
      "CompareSeriesKeys ?h NilSlice (Slice 2 0 7 7) = Inr (- 1)"
    by (simp_all add: CompareSeriesKeys_def GetUint16_def)
  from C5_compare_order_properties [OF a b c]
  have "CompareSeriesKeys ?h NilSlice NilSlice = Inr 0"
    and "\<exists>r. CompareSeriesKeys ?h NilSlice (Slice 1 0 7 7) = Inr r \<and>
          CompareSeriesKeys ?h (Slice 1 0 7 7) NilSlice = Inr (- r) \<and>
          (r = - 1 \<or> r = 0 \<or> r = 1)"
    by blast+
  then show ?thesis
    using a b c e by (auto simp del: bytes_of.simps)
qed

text \<open>
  C6 (nil-key ordering). Two empty buffers compare equal; an empty buffer is less than
  every non-empty buffer and every non-empty buffer is greater than an empty one,
  whatever the non-empty buffer holds: the comparator returns before it reads a header.
\<close>

theorem C6_nil_key_ordering:
  "len e = 0 \<Longrightarrow> len e' = 0 \<Longrightarrow> 0 < len k \<Longrightarrow>
   CompareSeriesKeys h e e' = Inr 0 \<and>
   CompareSeriesKeys h e k = Inr (- 1) \<and>
   CompareSeriesKeys h k e = Inr 1"
  by (simp add: CompareSeriesKeys_def)

theorem C6_nil_key_ordering_witness:
  "len NilSlice = 0 \<and> len (Slice 0 0 0 1) = 0 \<and> 0 < len (Slice 0 0 1 1) \<and>
   CompareSeriesKeys [[7]] NilSlice (Slice 0 0 0 1) = Inr 0 \<and>
   CompareSeriesKeys [[7]] NilSlice (Slice 0 0 1 1) = Inr (- 1) \<and>
   CompareSeriesKeys [[7]] (Slice 0 0 1 1) NilSlice = Inr 1"
  using C6_nil_key_ordering [of NilSlice "Slice 0 0 0 1" "Slice 0 0 1 1" "[[7]]"]
  by simp

section \<open>Bulk generation\<close>

lemma SeriesKeysSize_loop_total:
  "length names \<le> length tagsSlice \<Longrightarrow>
   SeriesKeysSize_loop n names tagsSlice = Inr (n + total_size names tagsSlice)"
proof (induction names arbitrary: n tagsSlice)
  case Nil
  then show ?case by simp
next
  case (Cons name names)
  then show ?case by (cases tagsSlice) simp_all
qed

lemma length_keys_layout:
  "list_all2 (valid_input h) names tagsSlice \<Longrightarrow>
   length (keys_layout h names tagsSlice) = total_size names tagsSlice"
  by (induction names tagsSlice rule: list_all2_induct)
     (simp_all add: length_key_layout valid_input_def)

lemma length_key_slices:
  "length names = length tagsSlice \<Longrightarrow> length (key_slices b off cp names tagsSlice) = length names"
  by (induction names tagsSlice arbitrary: off rule: list_induct2) simp_all

text \<open>
  The loop of the bulk generator, started with \<open>m\<close> bytes of the buffer in use
  (\<open>Done\<close>) and room for exactly the keys still to come (\<open>Rest\<close>): every append
  fits, so the buffer is never reallocated and every key stays where it was written.
\<close>

lemma GenerateSeriesKeys_loop_layout:
  "list_all2 (valid_input h) names tagsSlice \<Longrightarrow> length Done = m \<Longrightarrow>
   length Rest = total_size names tagsSlice \<Longrightarrow> cp = m + total_size names tagsSlice \<Longrightarrow>
   i + length names = length keys \<Longrightarrow>
   GenerateSeriesKeys_loop (h @ [Done @ Rest]) (Slice (length h) 0 m cp) keys i names tagsSlice =
     Inr (take i keys @ key_slices (length h) m cp names tagsSlice,
          h @ [Done @ keys_layout h names tagsSlice])"
proof (induction names tagsSlice arbitrary: Done Rest m keys i rule: list_all2_induct)
  case Nil
  then show ?case by simp
next
  case (Cons name names tags tagsSlice)
  let ?sz = "SeriesKeySize name tags" and ?b = "length h"
  let ?hc = "h @ [Done @ Rest]" and ?K = "key_layout h name tags"
  have lK: "length ?K = ?sz"
    using Cons.hyps(1) by (simp add: length_key_layout valid_input_def)
  have vb: "valid ?hc (Slice ?b 0 m cp)"
    using Cons.prems by simp
  have vi: "valid_input ?hc name tags"
    using Cons.hyps(1) by (rule valid_input_append)
  have fit: "?sz \<le> cp - m"
    using Cons.prems by simp
  have ap: "apart_input name tags ?b (0 + m) (0 + m + ?sz)"
    using Cons.hyps(1) by (rule apart_input_fresh)
  have R: "Rest = take ?sz Rest @ drop ?sz Rest"
    by simp
  have heap: "?hc[?b := take (0 + m) (?hc ! ?b) @ key_layout ?hc name tags @ drop (0 + m + ?sz) (?hc ! ?b)]
      = h @ [(Done @ ?K) @ drop ?sz Rest]"
    using Cons.prems(1) Cons.hyps(1) by (simp add: key_layout_append)
  have app: "AppendSeriesKey ?hc (Slice ?b 0 m cp) name tags =
      Inr (Slice ?b 0 (m + ?sz) cp, h @ [(Done @ ?K) @ drop ?sz Rest])"
    using AppendSeriesKey_inplace [OF vi vb fit ap] by (simp only: heap)
  have rs: "reslice (Slice ?b 0 (m + ?sz) cp) (len (Slice ?b 0 m cp)) (len (Slice ?b 0 (m + ?sz) cp)) =
      Inr (Slice ?b m ?sz (cp - m))"
    using Cons.prems by simp
  have i: "i < length keys"
    using Cons.prems by simp
  have ih: "GenerateSeriesKeys_loop (h @ [(Done @ ?K) @ drop ?sz Rest]) (Slice ?b 0 (m + ?sz) cp)
      (keys[i := Slice ?b m ?sz (cp - m)]) (Suc i) names tagsSlice =
      Inr (take (Suc i) (keys[i := Slice ?b m ?sz (cp - m)]) @
             key_slices ?b (m + ?sz) cp names tagsSlice,
           h @ [(Done @ ?K) @ keys_layout h names tagsSlice])"
    using Cons.prems lK by (intro Cons.IH) simp_all
  show ?case
    using app rs i ih
    by (simp add: take_Suc_conv_app_nth del: reslice.simps len.simps)
qed

lemma GenerateSeriesKeys_layout:
  assumes "list_all2 (valid_input h) names tagsSlice"
  shows "GenerateSeriesKeys h names tagsSlice =
    Inr (key_slices (length h) 0 (total_size names tagsSlice) names tagsSlice,
         h @ [keys_layout h names tagsSlice])"
proof -
  let ?n = "total_size names tagsSlice"
  have len: "length names = length tagsSlice"
    using assms by (rule list_all2_lengthD)
  then have sz: "SeriesKeysSize names tagsSlice = Inr ?n"
    by (simp add: SeriesKeysSize_def SeriesKeysSize_loop_total)
  have "GenerateSeriesKeys_loop (h @ [[] @ replicate ?n 0]) (Slice (length h) 0 0 ?n)
      (replicate (length names) NilSlice) 0 names tagsSlice =
      Inr (take 0 (replicate (length names) NilSlice) @ key_slices (length h) 0 ?n names tagsSlice,
           h @ [[] @ keys_layout h names tagsSlice])"
    using assms by (intro GenerateSeriesKeys_loop_layout) simp_all
  then show ?thesis
    by (simp add: GenerateSeriesKeys_def sz make_bytes_def)
qed

lemma key_slices_bytes:
  "list_all2 (valid_input h) names tagsSlice \<Longrightarrow> i < length names \<Longrightarrow>
   bytes_of (h @ [Pre @ keys_layout h names tagsSlice @ Post])
     (key_slices (length h) (length Pre) cp names tagsSlice ! i) =
   key_layout h (names ! i) (tagsSlice ! i)"
proof (induction names tagsSlice arbitrary: Pre i rule: list_all2_induct)
  case Nil
  then show ?case by simp
next
  case (Cons name names tags tagsSlice)
  let ?K = "key_layout h name tags"
  have lK: "length ?K = SeriesKeySize name tags"
    using Cons.hyps(1) by (simp add: length_key_layout valid_input_def)
  show ?case
  proof (cases i)
    case 0
    then show ?thesis using lK by simp
  next
    case (Suc j)
    then have "j < length names" using Cons.prems by simp
    from Cons.IH [OF this, of "Pre @ ?K"] show ?thesis
      using Suc lK by simp
  qed
qed

lemma key_slices_concat:
  "list_all2 (valid_input h) names tagsSlice \<Longrightarrow>
   concat (map (bytes_of (h @ [Pre @ keys_layout h names tagsSlice @ Post]))
     (key_slices (length h) (length Pre) cp names tagsSlice)) = keys_layout h names tagsSlice"
proof (induction names tagsSlice arbitrary: Pre rule: list_all2_induct)
  case Nil
  then show ?case by simp
next
  case (Cons name names tags tagsSlice)
  let ?K = "key_layout h name tags"
  have lK: "length ?K = SeriesKeySize name tags"
    using Cons.hyps(1) by (simp add: length_key_layout valid_input_def)
  from Cons.IH [of "Pre @ ?K"] show ?case
    using lK by simp
qed

text \<open>
  C7 (bulk equivalence). For lists of names and tag sets of equal length, held in valid
  slices, \<^verbatim>\<open>GenerateSeriesKeys\<close> returns one key for each pair; it allocates one new
  array, of exactly \<^verbatim>\<open>SeriesKeysSize(names, tagsSlice)\<close> bytes; the returned keys are
  slices of that array, each starting where the one before it ends, in the order of the
  input, and together they are the whole array; and the i-th key has the bytes of
  \<^verbatim>\<open>AppendSeriesKey(nil, names[i], tagsSlice[i])\<close>.
\<close>

theorem C7_bulk_equivalence:
  assumes "length names = length tagsSlice" and "list_all2 (valid_input h) names tagsSlice"
  shows "\<exists>keys buf n.
           GenerateSeriesKeys h names tagsSlice = Inr (keys, h @ [buf]) \<and>
           SeriesKeysSize names tagsSlice = Inr n \<and> length buf = n \<and>
           length keys = length names \<and>
           keys = key_slices (length h) 0 n names tagsSlice \<and>
           concat (map (bytes_of (h @ [buf])) keys) = buf \<and>
           (\<forall>i<length names. \<exists>key hk.
              AppendSeriesKey h NilSlice (names ! i) (tagsSlice ! i) = Inr (key, hk) \<and>
              bytes_of (h @ [buf]) (keys ! i) = bytes_of hk key)"
proof -
  let ?n = "total_size names tagsSlice"
  let ?keys = "key_slices (length h) 0 ?n names tagsSlice"
  let ?buf = "keys_layout h names tagsSlice"
  have g: "GenerateSeriesKeys h names tagsSlice = Inr (?keys, h @ [?buf])"
    using assms(2) by (rule GenerateSeriesKeys_layout)
  have sz: "SeriesKeysSize names tagsSlice = Inr ?n"
    using assms(1) by (simp add: SeriesKeysSize_def SeriesKeysSize_loop_total)
  have lb: "length ?buf = ?n"
    using assms(2) by (rule length_keys_layout)
  have lk: "length ?keys = length names"
    using assms(1) by (rule length_key_slices)
  have cc: "concat (map (bytes_of (h @ [?buf])) ?keys) = ?buf"
    using key_slices_concat [OF assms(2), of "[]" "[]" ?n] by simp
  have each: "\<exists>key hk. AppendSeriesKey h NilSlice (names ! i) (tagsSlice ! i) = Inr (key, hk) \<and>
      bytes_of (h @ [?buf]) (?keys ! i) = bytes_of hk key" if "i < length names" for i
  proof -
    have vi: "valid_input h (names ! i) (tagsSlice ! i)"
      using assms(2) that by (rule list_all2_nthD)
    have "bytes_of (h @ [?buf]) (?keys ! i) = key_layout h (names ! i) (tagsSlice ! i)"
      using key_slices_bytes [OF assms(2) that, of "[]" "[]" ?n] by simp
    then show ?thesis
      using AppendSeriesKey_nil [OF vi] bytes_key_nil [OF vi] by (simp del: bytes_of.simps)
  qed
  have ks: "?keys = key_slices (length h) 0 ?n names tagsSlice" ..
  from g sz lb lk ks cc each show ?thesis by blast
qed

theorem C7_bulk_equivalence_witness:
  "length [Slice 0 0 1 3, Slice 0 1 1 2] =
     length [[], [\<lparr>Key = Slice 0 2 1 1, Value = NilSlice\<rparr>]] \<and>
   list_all2 (valid_input [[0x61, 0x62, 0x63]]) [Slice 0 0 1 3, Slice 0 1 1 2]
     [[], [\<lparr>Key = Slice 0 2 1 1, Value = NilSlice\<rparr>]] \<and>
   (\<exists>keys buf.
      GenerateSeriesKeys [[0x61, 0x62, 0x63]] [Slice 0 0 1 3, Slice 0 1 1 2]
        [[], [\<lparr>Key = Slice 0 2 1 1, Value = NilSlice\<rparr>]] = Inr (keys, [[0x61, 0x62, 0x63]] @ [buf]) \<and>
      SeriesKeysSize [Slice 0 0 1 3, Slice 0 1 1 2]
        [[], [\<lparr>Key = Slice 0 2 1 1, Value = NilSlice\<rparr>]] = Inr 19 \<and>
      length buf = 19 \<and> length keys = 2 \<and> keys = [Slice 1 0 7 19, Slice 1 7 12 12] \<and>
      concat (map (bytes_of ([[0x61, 0x62, 0x63]] @ [buf])) keys) = buf \<and>
      bytes_of ([[0x61, 0x62, 0x63]] @ [buf]) (keys ! 0) = [0, 2, 0, 1, 0, 1, 0x61] \<and>
      bytes_of ([[0x61, 0x62, 0x63]] @ [buf]) (keys ! 1) =
        [0, 6, 0, 1, 0, 1, 0, 0, 0, 2, 0x62, 0x63])"
proof -
  let ?h = "[[0x61, 0x62, 0x63 :: byte]]"
  let ?names = "[Slice 0 0 1 3, Slice 0 1 1 2]"
  let ?tss = "[[], [\<lparr>Key = Slice 0 2 1 1, Value = NilSlice\<rparr>]]"
  have l: "length ?names = length ?tss" by simp
  have v0: "valid_input ?h (Slice 0 0 1 3) []"
    and v1: "valid_input ?h (Slice 0 1 1 2) [\<lparr>Key = Slice 0 2 1 1, Value = NilSlice\<rparr>]"
    by (simp_all add: valid_input_def valid_tag_def)
  then have v: "list_all2 (valid_input ?h) ?names ?tss" by simp
  have k0: "key_layout ?h (Slice 0 0 1 3) [] = [0, 2, 0, 1, 0, 1, 0x61]"
    and k1: "key_layout ?h (Slice 0 1 1 2) [\<lparr>Key = Slice 0 2 1 1, Value = NilSlice\<rparr>] =
      [0, 6, 0, 1, 0, 1, 0, 0, 0, 2, 0x62, 0x63]"
    by (simp_all add: key_layout_def be16_def SeriesKeyOffsetsSize_def SeriesKeyBytesSize_eq)
  from C7_bulk_equivalence [OF l v] obtain keys buf n where
    g: "GenerateSeriesKeys ?h ?names ?tss = Inr (keys, ?h @ [buf])"
    and s: "SeriesKeysSize ?names ?tss = Inr n" "length buf = n" "length keys = length ?names"
    and ks: "keys = key_slices (length ?h) 0 n ?names ?tss"
    and c: "concat (map (bytes_of (?h @ [buf])) keys) = buf"
    and e: "\<forall>i<length ?names. \<exists>key hk.
        AppendSeriesKey ?h NilSlice (?names ! i) (?tss ! i) = Inr (key, hk) \<and>
        bytes_of (?h @ [buf]) (keys ! i) = bytes_of hk key"
    by blast
  from s(1) have n: "n = 19"
    by (simp add: SeriesKeysSize_def SeriesKeySize_eq)
  have "(0::nat) < length ?names" by simp
  with e have "\<exists>key hk. AppendSeriesKey ?h NilSlice (?names ! 0) (?tss ! 0) = Inr (key, hk) \<and>
        bytes_of (?h @ [buf]) (keys ! 0) = bytes_of hk key"
    by blast
  with AppendSeriesKey_nil_bytes [OF v0]
  have b0: "bytes_of (?h @ [buf]) (keys ! 0) = [0, 2, 0, 1, 0, 1, 0x61]"
    by (auto simp: k0 [simplified] simp del: bytes_of.simps)
  have "(1::nat) < length ?names" by simp
  with e have "\<exists>key hk. AppendSeriesKey ?h NilSlice (?names ! 1) (?tss ! 1) = Inr (key, hk) \<and>
        bytes_of (?h @ [buf]) (keys ! 1) = bytes_of hk key"
    by blast
  with AppendSeriesKey_nil_bytes [OF v1]
  have b1: "bytes_of (?h @ [buf]) (keys ! 1) = [0, 6, 0, 1, 0, 1, 0, 0, 0, 2, 0x62, 0x63]"
    by (auto simp: k1 [simplified] simp del: bytes_of.simps)
  from ks have ks': "keys = [Slice 1 0 7 19, Slice 1 7 12 12]"
    unfolding n by (simp add: SeriesKeySize_eq)
  from g s c b0 b1 n ks' have "\<exists>keys buf.
      GenerateSeriesKeys ?h ?names ?tss = Inr (keys, ?h @ [buf]) \<and>
      SeriesKeysSize ?names ?tss = Inr 19 \<and> length buf = 19 \<and> length keys = 2 \<and>
      keys = [Slice 1 0 7 19, Slice 1 7 12 12] \<and>
      concat (map (bytes_of (?h @ [buf])) keys) = buf \<and>
      bytes_of (?h @ [buf]) (keys ! 0) = [0, 2, 0, 1, 0, 1, 0x61] \<and>
      bytes_of (?h @ [buf]) (keys ! 1) = [0, 6, 0, 1, 0, 1, 0, 0, 0, 2, 0x62, 0x63]"
    by (intro exI [of _ keys] exI [of _ buf]) (simp del: bytes_of.simps)
  with l v show ?thesis by (simp only: simp_thms)
qed

lemma SeriesKeysSize_loop_short:
  "length tagsSlice < length names \<Longrightarrow> SeriesKeysSize_loop n names tagsSlice = Inl IndexOutOfRange"
proof (induction names arbitrary: n tagsSlice)
  case Nil
  then show ?case by simp
next
  case (Cons name names)
  then show ?case by (cases tagsSlice) simp_all
qed

lemma SeriesKeysSize_loop_take:
  "SeriesKeysSize_loop n names (take (length names) tagsSlice) = SeriesKeysSize_loop n names tagsSlice"
proof (induction names arbitrary: n tagsSlice)
  case Nil
  then show ?case by simp
next
  case (Cons name names)
  then show ?case by (cases tagsSlice) simp_all
qed

lemma GenerateSeriesKeys_loop_take:
  "GenerateSeriesKeys_loop h buf keys i names (take (length names) tagsSlice) =
   GenerateSeriesKeys_loop h buf keys i names tagsSlice"
proof (induction names arbitrary: h buf keys i tagsSlice)
  case Nil
  then show ?case by simp
next
  case (Cons name names)
  note IH = Cons.IH
  show ?case
  proof (cases tagsSlice)
    case Nil
    then show ?thesis by simp
  next
    case (Cons tags tagsSlice')
    then show ?thesis
      by (simp add: IH split: sum.splits prod.splits del: reslice.simps)
  qed
qed

lemma GenerateSeriesKeys_take:
  "GenerateSeriesKeys h names (take (length names) tagsSlice) = GenerateSeriesKeys h names tagsSlice"
  unfolding GenerateSeriesKeys_def SeriesKeysSize_def
  by (simp only: SeriesKeysSize_loop_take GenerateSeriesKeys_loop_take)

lemma total_size_zip:
  "total_size names tagsSlice = (\<Sum>(name, tags)\<leftarrow>zip names tagsSlice. SeriesKeySize name tags)"
  by (induction names tagsSlice rule: total_size.induct) simp_all

lemma zip_take_length: "zip xs (take (length xs) ys) = zip xs ys"
proof (induction xs arbitrary: ys)
  case Nil
  then show ?case by simp
next
  case (Cons x xs)
  then show ?case by (cases ys) simp_all
qed

text \<open>
  C9, as the code has it. The bulk paths do not compare the lengths of the two lists.
  When the list of names is the longer one, \<^verbatim>\<open>SeriesKeysSize\<close> panics with an index out
  of range, and so does \<^verbatim>\<open>GenerateSeriesKeys\<close>, in its size computation, before it
  allocates or encodes anything. When the list of names is the shorter one, both calls
  succeed and return what they return for the names and the first \<^verbatim>\<open>len(names)\<close> tag
  sets, the other tag sets being ignored: \<^verbatim>\<open>SeriesKeysSize\<close> returns the sum of the
  sizes of the pairs \<^verbatim>\<open>(names[i], tagsSlice[i])\<close>, and \<^verbatim>\<open>GenerateSeriesKeys\<close>, for names
  and tags held in valid slices, returns one key for each name, in one new array of
  that size, the i-th key being the encoding of \<^verbatim>\<open>(names[i], tagsSlice[i])\<close>.
\<close>

theorem C9_mismatched_lengths:
  "(length tagsSlice < length names \<longrightarrow>
      SeriesKeysSize names tagsSlice = Inl IndexOutOfRange \<and>
      GenerateSeriesKeys h names tagsSlice = Inl IndexOutOfRange) \<and>
   (length names < length tagsSlice \<longrightarrow>
      SeriesKeysSize names tagsSlice =
        Inr (\<Sum>(name, tags)\<leftarrow>zip names tagsSlice. SeriesKeySize name tags) \<and>
      SeriesKeysSize names tagsSlice = SeriesKeysSize names (take (length names) tagsSlice) \<and>
      GenerateSeriesKeys h names tagsSlice =
        GenerateSeriesKeys h names (take (length names) tagsSlice) \<and>
      (list_all2 (valid_input h) names (take (length names) tagsSlice) \<longrightarrow>
         (\<exists>keys buf.
            GenerateSeriesKeys h names tagsSlice = Inr (keys, h @ [buf]) \<and>
            length keys = length names \<and>
            length buf = (\<Sum>(name, tags)\<leftarrow>zip names tagsSlice. SeriesKeySize name tags) \<and>
            concat (map (bytes_of (h @ [buf])) keys) = buf \<and>
            (\<forall>i<length names.
               bytes_of (h @ [buf]) (keys ! i) = key_layout h (names ! i) (tagsSlice ! i)))))"
proof -
  let ?tss = "take (length names) tagsSlice"
  let ?sum = "\<Sum>(name, tags)\<leftarrow>zip names tagsSlice. SeriesKeySize name tags"
  have 1: "SeriesKeysSize names tagsSlice = Inl IndexOutOfRange" if "length tagsSlice < length names"
    using that by (simp add: SeriesKeysSize_def SeriesKeysSize_loop_short)
  have 2: "SeriesKeysSize names tagsSlice = SeriesKeysSize names ?tss"
    unfolding SeriesKeysSize_def by (rule SeriesKeysSize_loop_take [symmetric])
  have 3: "GenerateSeriesKeys h names tagsSlice = GenerateSeriesKeys h names ?tss"
    by (rule GenerateSeriesKeys_take [symmetric])
  have 4: "GenerateSeriesKeys h names tagsSlice = Inl IndexOutOfRange"
    if "length tagsSlice < length names"
    unfolding GenerateSeriesKeys_def by (simp only: 1 [OF that] sum.case)
  have 5: "SeriesKeysSize names tagsSlice = Inr ?sum" if "length names < length tagsSlice"
    using that by (simp add: SeriesKeysSize_def SeriesKeysSize_loop_total total_size_zip)
  have ts: "total_size names ?tss = ?sum"
    by (simp only: total_size_zip zip_take_length)
  have 6: "\<exists>keys buf.
      GenerateSeriesKeys h names tagsSlice = Inr (keys, h @ [buf]) \<and>
      length keys = length names \<and> length buf = ?sum \<and>
      concat (map (bytes_of (h @ [buf])) keys) = buf \<and>
      (\<forall>i<length names.
         bytes_of (h @ [buf]) (keys ! i) = key_layout h (names ! i) (tagsSlice ! i))"
    if v: "list_all2 (valid_input h) names ?tss"
  proof -
    let ?n = "total_size names ?tss"
    let ?keys = "key_slices (length h) 0 ?n names ?tss"
    let ?buf = "keys_layout h names ?tss"
    have len: "length names = length ?tss"
      using v by (rule list_all2_lengthD)
    have g: "GenerateSeriesKeys h names tagsSlice = Inr (?keys, h @ [?buf])"
      using GenerateSeriesKeys_layout [OF v] by (simp only: 3)
    have lk: "length ?keys = length names"
      using len by (rule length_key_slices)
    have lb: "length ?buf = ?sum"
      using length_keys_layout [OF v] by (simp only: ts)
    have cc: "concat (map (bytes_of (h @ [?buf])) ?keys) = ?buf"
      using key_slices_concat [OF v, of "[]" "[]" ?n] by simp
    have each: "bytes_of (h @ [?buf]) (?keys ! i) = key_layout h (names ! i) (tagsSlice ! i)"
      if "i < length names" for i
      using key_slices_bytes [OF v that, of "[]" "[]" ?n] that by simp
    from g lk lb cc each show ?thesis by blast
  qed
  from 1 2 3 4 5 6 show ?thesis
    by blast
qed

text \<open>
  C9 as stated fails: with one name and two tag sets no error is raised. The size is
  that of the one key and \<^verbatim>\<open>GenerateSeriesKeys\<close> returns that key.
\<close>

theorem C9_mismatched_lengths_counterexample:
  "SeriesKeysSize [Slice 0 0 1 1] [[], []] = Inr 7 \<and>
   GenerateSeriesKeys [[0x61]] [Slice 0 0 1 1] [[], []] =
     Inr ([Slice 1 0 7 7], [[0x61], [0, 2, 0, 1, 0, 1, 0x61]])"
proof -
  have v: "list_all2 (valid_input [[0x61]]) [Slice 0 0 1 1] [[]]"
    by (simp add: valid_input_def)
  have "GenerateSeriesKeys [[0x61]] [Slice 0 0 1 1] (take (length [Slice 0 0 1 1]) [[], []]) =
      Inr ([Slice 1 0 7 7], [[0x61], [0, 2, 0, 1, 0, 1, 0x61]])"
    using GenerateSeriesKeys_layout [OF v]
    by (simp add: SeriesKeySize_eq key_layout_def be16_def SeriesKeyOffsetsSize_def
          SeriesKeyBytesSize_eq)
  then have "GenerateSeriesKeys [[0x61]] [Slice 0 0 1 1] [[], []] =
      Inr ([Slice 1 0 7 7], [[0x61], [0, 2, 0, 1, 0, 1, 0x61]])"
    by (simp only: GenerateSeriesKeys_take)
  then show ?thesis
    by (simp add: SeriesKeysSize_def SeriesKeySize_eq)
qed

theorem C9_mismatched_lengths_witness:
  "length [[] :: Tag list] < length [Slice 0 0 1 2, Slice 0 1 1 1] \<and>
   SeriesKeysSize [Slice 0 0 1 2, Slice 0 1 1 1] [[]] = Inl IndexOutOfRange \<and>
   GenerateSeriesKeys [[0x61, 0x62]] [Slice 0 0 1 2, Slice 0 1 1 1] [[]] = Inl IndexOutOfRange \<and>
   length [Slice 0 0 1 2] < length [[], [] :: Tag list] \<and>
   list_all2 (valid_input [[0x61, 0x62]]) [Slice 0 0 1 2]
     (take (length [Slice 0 0 1 2]) [[], []]) \<and>
   SeriesKeysSize [Slice 0 0 1 2] [[], []] = Inr 7 \<and>
   (\<exists>keys buf.
      GenerateSeriesKeys [[0x61, 0x62]] [Slice 0 0 1 2] [[], []] = Inr (keys, [[0x61, 0x62]] @ [buf]) \<and>
      length keys = 1 \<and> length buf = 7 \<and>
      bytes_of ([[0x61, 0x62]] @ [buf]) (keys ! 0) = [0, 2, 0, 1, 0, 1, 0x61])"
proof -
  let ?h = "[[0x61, 0x62 :: byte]]"
  let ?n1 = "[Slice 0 0 1 2]" and ?t2 = "[[], [] :: Tag list]"
  have l2: "length ?n1 < length ?t2" by simp
  have v: "list_all2 (valid_input ?h) ?n1 (take (length ?n1) ?t2)"
    by (simp add: valid_input_def)
  have k: "key_layout ?h (Slice 0 0 1 2) [] = [0, 2, 0, 1, 0, 1, 0x61]"
    by (simp add: key_layout_def be16_def SeriesKeyOffsetsSize_def SeriesKeyBytesSize_eq)
  have sm: "(\<Sum>(name, tags)\<leftarrow>zip ?n1 ?t2. SeriesKeySize name tags) = 7"
    by (simp add: SeriesKeySize_eq)
  from C9_mismatched_lengths [of ?t2 ?n1 ?h] l2 v
  have s: "SeriesKeysSize ?n1 ?t2 = Inr (\<Sum>(name, tags)\<leftarrow>zip ?n1 ?t2. SeriesKeySize name tags)"
    and "\<exists>keys buf.
      GenerateSeriesKeys ?h ?n1 ?t2 = Inr (keys, ?h @ [buf]) \<and>
      length keys = length ?n1 \<and>
      length buf = (\<Sum>(name, tags)\<leftarrow>zip ?n1 ?t2. SeriesKeySize name tags) \<and>
      concat (map (bytes_of (?h @ [buf])) keys) = buf \<and>
      (\<forall>i<length ?n1. bytes_of (?h @ [buf]) (keys ! i) = key_layout ?h (?n1 ! i) (?t2 ! i))"
    by blast+
  then obtain keys buf where g: "GenerateSeriesKeys ?h ?n1 ?t2 = Inr (keys, ?h @ [buf])"
    and lk: "length keys = length ?n1"
    and lb: "length buf = (\<Sum>(name, tags)\<leftarrow>zip ?n1 ?t2. SeriesKeySize name tags)"
    and e: "\<forall>i<length ?n1. bytes_of (?h @ [buf]) (keys ! i) = key_layout ?h (?n1 ! i) (?t2 ! i)"
    by blast
  have "(0::nat) < length ?n1" by simp
  with e have "bytes_of (?h @ [buf]) (keys ! 0) = key_layout ?h (?n1 ! 0) (?t2 ! 0)"
    by blast
  then have b0: "bytes_of (?h @ [buf]) (keys ! 0) = [0, 2, 0, 1, 0, 1, 0x61]"
    using k by (simp del: bytes_of.simps)
  from g lk lb b0 have ex: "\<exists>keys buf.
      GenerateSeriesKeys ?h ?n1 ?t2 = Inr (keys, ?h @ [buf]) \<and>
      length keys = 1 \<and> length buf = 7 \<and>
      bytes_of (?h @ [buf]) (keys ! 0) = [0, 2, 0, 1, 0, 1, 0x61]"
    unfolding sm by (intro exI [of _ keys] exI [of _ buf]) (simp del: bytes_of.simps)
  from s have s7: "SeriesKeysSize ?n1 ?t2 = Inr 7"
    unfolding sm .
  have l1: "length [[] :: Tag list] < length [Slice 0 0 1 2, Slice 0 1 1 1]" by simp
  from C9_mismatched_lengths [of "[[]]" "[Slice 0 0 1 2, Slice 0 1 1 1]" ?h] l1
  have p: "SeriesKeysSize [Slice 0 0 1 2, Slice 0 1 1 1] [[]] = Inl IndexOutOfRange"
    "GenerateSeriesKeys ?h [Slice 0 0 1 2, Slice 0 1 1 1] [[]] = Inl IndexOutOfRange"
    by blast+
  from l1 p l2 v s7 ex show ?thesis by (simp only: simp_thms)
qed

section \<open>Distinct series that compare equal\<close>

text \<open>
  C10. The series with name \<^verbatim>\<open>ab\<close> and no tag, and the series with name \<^verbatim>\<open>a\<close> and
  one tag with key \<^verbatim>\<open>b\<close> and an empty value, are different inputs and have different
  encoded keys (8 and 12 bytes), yet \<^verbatim>\<open>CompareSeriesKeys\<close> returns 0 on the two keys:
  both payloads are the bytes \<^verbatim>\<open>ab\<close>.
\<close>

theorem C10_distinct_series_compare_equal:
  "bytes_of [[0x61, 0x62]] (Slice 0 0 2 2) \<noteq> bytes_of [[0x61, 0x62]] (Slice 0 0 1 2) \<and>
   AppendSeriesKey [[0x61, 0x62]] NilSlice (Slice 0 0 2 2) [] =
     Inr (Slice 1 0 8 8, [[0x61, 0x62], [0, 2, 0, 2, 0, 2, 0x61, 0x62]]) \<and>
   AppendSeriesKey [[0x61, 0x62], [0, 2, 0, 2, 0, 2, 0x61, 0x62]] NilSlice (Slice 0 0 1 2)
     [\<lparr>Key = Slice 0 1 1 1, Value = NilSlice\<rparr>] =
     Inr (Slice 2 0 12 12,
          [[0x61, 0x62], [0, 2, 0, 2, 0, 2, 0x61, 0x62], [0, 6, 0, 1, 0, 1, 0, 0, 0, 2, 0x61, 0x62]]) \<and>
   bytes_of
     [[0x61, 0x62], [0, 2, 0, 2, 0, 2, 0x61, 0x62], [0, 6, 0, 1, 0, 1, 0, 0, 0, 2, 0x61, 0x62]]
     (Slice 1 0 8 8) \<noteq>
   bytes_of
     [[0x61, 0x62], [0, 2, 0, 2, 0, 2, 0x61, 0x62], [0, 6, 0, 1, 0, 1, 0, 0, 0, 2, 0x61, 0x62]]
     (Slice 2 0 12 12) \<and>
   CompareSeriesKeys
     [[0x61, 0x62], [0, 2, 0, 2, 0, 2, 0x61, 0x62], [0, 6, 0, 1, 0, 1, 0, 0, 0, 2, 0x61, 0x62]]
     (Slice 1 0 8 8) (Slice 2 0 12 12) = Inr 0 \<and>
   Compare_encoded [[0x61, 0x62]] (Slice 0 0 2 2) [] (Slice 0 0 1 2)
     [\<lparr>Key = Slice 0 1 1 1, Value = NilSlice\<rparr>] = Inr 0"
proof -
  let ?h0 = "[[0x61, 0x62 :: byte]]"
  let ?h1 = "[[0x61, 0x62], [0, 2, 0, 2, 0, 2, 0x61, 0x62 :: byte]]"
  let ?h2 = "[[0x61, 0x62], [0, 2, 0, 2, 0, 2, 0x61, 0x62],
      [0, 6, 0, 1, 0, 1, 0, 0, 0, 2, 0x61, 0x62 :: byte]]"
  have v0: "valid_input ?h0 (Slice 0 0 2 2) []"
    by (simp add: valid_input_def)
  have a: "AppendSeriesKey ?h0 NilSlice (Slice 0 0 2 2) [] = Inr (Slice 1 0 8 8, ?h1)"
    using AppendSeriesKey_nil [OF v0]
    by (simp add: SeriesKeySize_eq key_layout_def be16_def SeriesKeyOffsetsSize_def
          SeriesKeyBytesSize_eq)
  have v1: "valid_input ?h1 (Slice 0 0 1 2) [\<lparr>Key = Slice 0 1 1 1, Value = NilSlice\<rparr>]"
    by (simp add: valid_input_def valid_tag_def)
  have b: "AppendSeriesKey ?h1 NilSlice (Slice 0 0 1 2) [\<lparr>Key = Slice 0 1 1 1, Value = NilSlice\<rparr>] =
      Inr (Slice 2 0 12 12, ?h2)"
    using AppendSeriesKey_nil [OF v1]
    by (simp add: SeriesKeySize_eq key_layout_def be16_def SeriesKeyOffsetsSize_def
          SeriesKeyBytesSize_eq)
  have c: "CompareSeriesKeys ?h2 (Slice 1 0 8 8) (Slice 2 0 12 12) = Inr 0"
    by (simp add: CompareSeriesKeys_def GetUint16_def)
  have d: "Compare_encoded ?h0 (Slice 0 0 2 2) [] (Slice 0 0 1 2)
      [\<lparr>Key = Slice 0 1 1 1, Value = NilSlice\<rparr>] = Inr 0"
    unfolding Compare_encoded_def by (simp only: a b c sum.case prod.case)
  have e: "bytes_of ?h0 (Slice 0 0 2 2) \<noteq> bytes_of ?h0 (Slice 0 0 1 2)"
    "bytes_of ?h2 (Slice 1 0 8 8) \<noteq> bytes_of ?h2 (Slice 2 0 12 12)"
    by simp_all
  from a b c d e show ?thesis by (simp only: simp_thms)
qed

end
